theory Spec2Isabelle
  imports Main "HOL-Library.Word" "HOL-Library.Multiset" "HOL-Library.Sublist"
begin

section \<open>Data model\<close>

text \<open>
  The reconciliation engine of qself (file \<^verbatim>\<open>main.go\<close>): \<^verbatim>\<open>mergeReadings\<close>,
  \<^verbatim>\<open>mergeTweets\<close>, \<^verbatim>\<open>flipDuplicateTweetsOnTrivialChanges\<close> and the reflection helpers
  \<^verbatim>\<open>sliceReverse\<close>, \<^verbatim>\<open>sliceKeepOnly\<close>, \<^verbatim>\<open>sliceUniq\<close>, in the version of the file
  in which \<^verbatim>\<open>mergeReadings\<close> filters the stored readings with \<^verbatim>\<open>sliceKeepOnly\<close> and the
  anti-churn pass compares the entities (the second file of \<^verbatim>\<open>src/unnamed/part_002\<close>).

  Go's \<^verbatim>\<open>int64\<close> is a 64-bit word. Go's \<^verbatim>\<open>int\<close> is taken at its width on 64-bit targets,
  64 bits as well: subtraction wraps around, \<^verbatim>\<open><\<close> compares the signed values.
  A pointer to a struct is \<open>option\<close> of the struct (\<open>None\<close> is \<^verbatim>\<open>nil\<close>); a slice held in a
  struct field is \<open>option\<close> of a list (\<open>None\<close> is the \<^verbatim>\<open>nil\<close> slice, which
  \<^verbatim>\<open>reflect.DeepEqual\<close> tells apart from an empty one). On these values, all finite and
  free of functions and floats, \<^verbatim>\<open>reflect.DeepEqual\<close> is the equality of HOL.
  \<^verbatim>\<open>time.Time\<close> is payload that no reconciler inspects: an instant, as an integer.
\<close>

type_synonym int64 = "64 word"
type_synonym go_int = "64 word"
type_synonym Time = int

datatype ReadingAuthor = ReadingAuthor (author_ID: go_int) (author_Name: string)

text \<open>The field \<^verbatim>\<open>ID\<close> of \<^verbatim>\<open>Reading\<close> (the book's identifier) is \<open>BookID\<close> here: the
  field name \<open>ID\<close> belongs to \<open>Tweet\<close> below.\<close>

record Reading =
  Authors :: "ReadingAuthor option list option"
  BookID :: go_int
  ISBN :: string
  ISBN13 :: string
  NumPages :: go_int
  PublishedYear :: go_int
  ReadAt :: Time
  Rating :: go_int
  Review :: string
  ReviewID :: go_int
  Title :: string

datatype TweetEntitiesMedia =
  TweetEntitiesMedia (media_ID: int64) (media_Type: string) (media_URL: string)

datatype TweetEntitiesURL =
  TweetEntitiesURL (url_DisplayURL: string) (url_ExpandedURL: string) (url_URL: string)

datatype TweetEntitiesUserMention =
  TweetEntitiesUserMention (mention_User: string) (mention_UserID: int64)

record TweetEntities =
  Medias :: "TweetEntitiesMedia option list option"
  URLs :: "TweetEntitiesURL option list option"
  UserMentions :: "TweetEntitiesUserMention option list option"

datatype TweetReply =
  TweetReply (reply_StatusID: int64) (reply_User: string) (reply_UserID: int64)

datatype TweetRetweet =
  TweetRetweet (retweet_StatusID: int64) (retweet_User: string) (retweet_UserID: int64)

record Tweet =
  CreatedAt :: Time
  Entities :: "TweetEntities option"
  FavoriteCount :: go_int
  ID :: int64
  Reply :: "TweetReply option"
  Retweet :: "TweetRetweet option"
  RetweetCount :: go_int
  Text :: string

text \<open>
  The batches are slices of pointers, \<^verbatim>\<open>[]*Tweet\<close> and \<^verbatim>\<open>[]*Reading\<close>. No reconciler writes
  through such a pointer and every one of them is dereferenced (a \<^verbatim>\<open>nil\<close> element would
  panic), so an element is modelled by the record it points to, and the contents of a slice
  by a list of records.
\<close>

section \<open>Private functions\<close>

definition absInt :: "go_int \<Rightarrow> go_int" where
  "absInt x = (if x <s 0 then - x else x)"

subsection \<open>sliceUniq\<close>

text \<open>
  \<^verbatim>\<open>sliceUniq(s, selector)\<close> compacts \<open>s\<close> in place: \<open>i\<close> reads, \<open>j\<close> writes, \<open>seen\<close> is the
  map of keys met so far. The selector of every caller is a closure
  \<^verbatim>\<open>func(i int) interface{} { return s[i].Key }\<close> over the very slice that is being
  compacted, so \<open>selector\<close> is the key of an element and the loop applies it to the current
  content of slot \<open>i\<close>. The keys of \<^verbatim>\<open>map[interface{}]struct{}\<close> are compared with \<^verbatim>\<open>==\<close>,
  which is the equality of HOL on the integer keys of the callers. The loop returns the
  array as it leaves it and the final \<open>j\<close>; the result of \<^verbatim>\<open>sliceUniq\<close> is the slice
  \<^verbatim>\<open>s[0:j]\<close>.
\<close>

function sliceUniq_loop ::
  "('a \<Rightarrow> 'k) \<Rightarrow> 'a list \<Rightarrow> 'k set \<Rightarrow> nat \<Rightarrow> nat \<Rightarrow> 'a list \<times> nat" where
  "sliceUniq_loop selector s seen j i =
     (if i < length s then
        (if selector (s ! i) \<in> seen then sliceUniq_loop selector s seen j (i + 1)
         else sliceUniq_loop selector (s[j := s ! i]) (insert (selector (s ! i)) seen)
                (j + 1) (i + 1))
      else (s, j))"
  by pat_completeness auto
termination
  by (relation "measure (\<lambda>(selector, s, seen, j, i). length s - i)") auto

definition sliceUniq :: "'a list \<Rightarrow> ('a \<Rightarrow> 'k) \<Rightarrow> 'a list" where
  "sliceUniq s selector = (case sliceUniq_loop selector s {} 0 0 of (s', j) \<Rightarrow> take j s')"

subsection \<open>sliceKeepOnly\<close>

text \<open>
  \<^verbatim>\<open>sliceKeepOnly(s1, s2, selector1, selector2)\<close>: a first loop collects the keys of \<open>s2\<close>
  in the map \<open>s2Values\<close>, a second loop compacts \<open>s1\<close> in place, keeping the elements whose
  key is in the map. It returns \<^verbatim>\<open>s1[0:j]\<close>. The selectors are closures over the slices,
  as for \<^verbatim>\<open>sliceUniq\<close>.
\<close>

function s2Values_loop :: "('b \<Rightarrow> 'k) \<Rightarrow> 'b list \<Rightarrow> 'k set \<Rightarrow> nat \<Rightarrow> 'k set" where
  "s2Values_loop selector2 s2 s2Values i =
     (if i < length s2
      then s2Values_loop selector2 s2 (insert (selector2 (s2 ! i)) s2Values) (i + 1)
      else s2Values)"
  by pat_completeness auto
termination
  by (relation "measure (\<lambda>(selector2, s2, s2Values, i). length s2 - i)") auto

function sliceKeepOnly_loop ::
  "('a \<Rightarrow> 'k) \<Rightarrow> 'a list \<Rightarrow> 'k set \<Rightarrow> nat \<Rightarrow> nat \<Rightarrow> 'a list \<times> nat" where
  "sliceKeepOnly_loop selector1 s1 s2Values j i =
     (if i < length s1 then
        (if selector1 (s1 ! i) \<notin> s2Values
         then sliceKeepOnly_loop selector1 s1 s2Values j (i + 1)
         else sliceKeepOnly_loop selector1 (s1[j := s1 ! i]) s2Values (j + 1) (i + 1))
      else (s1, j))"
  by pat_completeness auto
termination
  by (relation "measure (\<lambda>(selector1, s1, s2Values, j, i). length s1 - i)") auto

definition sliceKeepOnly ::
  "'a list \<Rightarrow> 'b list \<Rightarrow> ('a \<Rightarrow> 'k) \<Rightarrow> ('b \<Rightarrow> 'k) \<Rightarrow> 'a list" where
  "sliceKeepOnly s1 s2 selector1 selector2 =
     (case sliceKeepOnly_loop selector1 s1 (s2Values_loop selector2 s2 {} 0) 0 0 of
        (s1', j) \<Rightarrow> take j s1')"

subsection \<open>sliceReverse\<close>

text \<open>\<^verbatim>\<open>reflect.Swapper(s)\<close> gives the function that exchanges two slots of \<open>s\<close>. The indices
  of the loop are Go \<^verbatim>\<open>int\<close>s: \<open>j\<close> starts at \<open>n - 1\<close>, which is \<open>-1\<close> on an empty slice.\<close>

definition swap :: "'a list \<Rightarrow> nat \<Rightarrow> nat \<Rightarrow> 'a list" where
  "swap s i j = s[i := s ! j, j := s ! i]"

function sliceReverse_loop :: "'a list \<Rightarrow> int \<Rightarrow> int \<Rightarrow> 'a list" where
  "sliceReverse_loop s i j =
     (if i < j then sliceReverse_loop (swap s (nat i) (nat j)) (i + 1) (j - 1) else s)"
  by pat_completeness auto
termination
  by (relation "measure (\<lambda>(s, i, j). nat (j - i))") auto

definition sliceReverse :: "'a list \<Rightarrow> 'a list" where
  "sliceReverse s = sliceReverse_loop s 0 (int (length s) - 1)"

subsection \<open>flipDuplicateTweetsOnTrivialChanges\<close>

function flip_loop :: "Tweet list \<Rightarrow> nat \<Rightarrow> nat \<Rightarrow> Tweet list" where
  "flip_loop tweets i j =
     (if j < length tweets then
        (if ID (tweets ! i) \<noteq> ID (tweets ! j) then flip_loop tweets (i + 1) (j + 1)
         else if Text (tweets ! i) \<noteq> Text (tweets ! j) then flip_loop tweets (i + 1) (j + 1)
         else if Entities (tweets ! i) \<noteq> Entities (tweets ! j)
           then flip_loop tweets (i + 1) (j + 1)
         else if absInt (FavoriteCount (tweets ! i) - FavoriteCount (tweets ! j)) <s 3
               \<and> absInt (RetweetCount (tweets ! i) - RetweetCount (tweets ! j)) <s 3
           then flip_loop (swap tweets i j) (i + 1) (j + 1)
         else flip_loop tweets (i + 1) (j + 1))
      else tweets)"
  by pat_completeness auto
termination
  by (relation "measure (\<lambda>(tweets, i, j). length tweets - j)") (auto simp: swap_def)

definition flipDuplicateTweetsOnTrivialChanges :: "Tweet list \<Rightarrow> Tweet list" where
  "flipDuplicateTweetsOnTrivialChanges tweets = flip_loop tweets 0 1"

subsection \<open>sort.SliceStable\<close>

text \<open>
  \<^verbatim>\<open>sort.SliceStable(s, less)\<close> is Go's library: it sorts \<open>s\<close> in place by \<open>less\<close> and keeps
  elements that \<open>less\<close> does not order in their original order. Here it is the insertion
  sort with that property; \<open>lessf\<close> (the parameter \<^verbatim>\<open>less\<close>) is the relation on elements
  that the callers' closures \<^verbatim>\<open>func(i, j int) bool { return s[i].Key < s[j].Key }\<close>
  compute.
\<close>

fun insert_stable :: "('a \<Rightarrow> 'a \<Rightarrow> bool) \<Rightarrow> 'a \<Rightarrow> 'a list \<Rightarrow> 'a list" where
  "insert_stable lessf x [] = [x]"
| "insert_stable lessf x (y # ys) =
     (if lessf y x then y # insert_stable lessf x ys else x # y # ys)"

definition sort_SliceStable :: "'a list \<Rightarrow> ('a \<Rightarrow> 'a \<Rightarrow> bool) \<Rightarrow> 'a list" where
  "sort_SliceStable s lessf = foldr (insert_stable lessf) s []"

subsection \<open>mergeReadings and mergeTweets, on the contents of the slices\<close>

text \<open>
  The two reconcilers as functions from the contents of the argument slices to the content
  of the returned slice; \<^verbatim>\<open>append\<close> is \<open>@\<close>, each in-place helper returns what it leaves in
  the slice. The names \<open>existingReadings'\<close>, \<open>s'\<close> and \<open>s''\<close> are the variables
  \<^verbatim>\<open>existingReadings\<close> and \<^verbatim>\<open>s\<close> after an assignment or an in-place step. What the calls
  do to the backing arrays of the arguments is the subject of the next section.
\<close>

definition mergeReadings :: "Reading list \<Rightarrow> Reading list \<Rightarrow> Reading list" where
  "mergeReadings apiReadings existingReadings =
     (let existingReadings' = sliceKeepOnly existingReadings apiReadings ReviewID ReviewID;
          s = apiReadings @ existingReadings';
          s' = sort_SliceStable s (\<lambda>a b. ReviewID a <s ReviewID b);
          sMerged = sliceUniq s' ReviewID
      in sliceReverse sMerged)"

definition mergeTweets :: "Tweet list \<Rightarrow> Tweet list \<Rightarrow> Tweet list" where
  "mergeTweets apiTweets existingTweets =
     (let s = apiTweets @ existingTweets;
          s' = sort_SliceStable s (\<lambda>a b. ID a <s ID b);
          s'' = flipDuplicateTweetsOnTrivialChanges s';
          sMerged = sliceUniq s'' ID
      in sliceReverse sMerged)"

section \<open>The reconcilers on a store of backing arrays\<close>

text \<open>
  A Go slice is a header: a backing array, an offset into it and a length; its capacity is
  what the array holds from the offset on. The store maps the address of a backing array
  to its content. The helpers write through the header into the array, so what a caller
  sees afterwards through its own header is read from the store.
\<close>

type_synonym 'a store = "'a list list"

record slice =
  arr :: nat
  off :: nat
  len :: nat

definition cap :: "'a store \<Rightarrow> slice \<Rightarrow> nat" where
  "cap h s = length (h ! arr s) - off s"

definition valid :: "'a store \<Rightarrow> slice \<Rightarrow> bool" where
  "valid h s = (arr s < length h \<and> off s + len s \<le> length (h ! arr s))"

definition elems :: "'a store \<Rightarrow> slice \<Rightarrow> 'a list" where
  "elems h s = take (len s) (drop (off s) (h ! arr s))"

text \<open>\<open>put_elems h s xs\<close> overwrites the slots of the array of \<open>s\<close> from its offset on
  with \<open>xs\<close>.\<close>

definition put_elems :: "'a store \<Rightarrow> slice \<Rightarrow> 'a list \<Rightarrow> 'a store" where
  "put_elems h s xs =
     h[arr s := take (off s) (h ! arr s) @ xs @ drop (off s + length xs) (h ! arr s)]"

text \<open>
  \<^verbatim>\<open>append(s1, s2...)\<close>: when the capacity of \<open>s1\<close> suffices, the elements of \<open>s2\<close> are
  copied behind those of \<open>s1\<close> in the array of \<open>s1\<close> and the result shares that array;
  otherwise a new array is allocated and both are copied there. The spare capacity of a new
  array is left out: no later step reads or writes beyond the length of the result.
\<close>

definition go_append :: "'a store \<Rightarrow> slice \<Rightarrow> slice \<Rightarrow> 'a store \<times> slice" where
  "go_append h s1 s2 =
     (if len s1 + len s2 \<le> cap h s1
      then (put_elems h (s1\<lparr>off := off s1 + len s1\<rparr>) (elems h s2),
            s1\<lparr>len := len s1 + len s2\<rparr>)
      else (h @ [elems h s1 @ elems h s2],
            \<lparr>arr = length h, off = 0, len = len s1 + len s2\<rparr>))"

definition sliceKeepOnly_st ::
  "'a store \<Rightarrow> slice \<Rightarrow> slice \<Rightarrow> ('a \<Rightarrow> 'k) \<Rightarrow> ('a \<Rightarrow> 'k) \<Rightarrow> 'a store \<times> slice" where
  "sliceKeepOnly_st h s1 s2 selector1 selector2 =
     (case sliceKeepOnly_loop selector1 (elems h s1)
             (s2Values_loop selector2 (elems h s2) {} 0) 0 0 of
        (s1', j) \<Rightarrow> (put_elems h s1 s1', s1\<lparr>len := j\<rparr>))"

definition sliceUniq_st :: "'a store \<Rightarrow> slice \<Rightarrow> ('a \<Rightarrow> 'k) \<Rightarrow> 'a store \<times> slice" where
  "sliceUniq_st h s selector =
     (case sliceUniq_loop selector (elems h s) {} 0 0 of
        (s', j) \<Rightarrow> (put_elems h s s', s\<lparr>len := j\<rparr>))"

definition sliceReverse_st :: "'a store \<Rightarrow> slice \<Rightarrow> 'a store" where
  "sliceReverse_st h s = put_elems h s (sliceReverse (elems h s))"

definition sort_SliceStable_st :: "'a store \<Rightarrow> slice \<Rightarrow> ('a \<Rightarrow> 'a \<Rightarrow> bool) \<Rightarrow> 'a store" where
  "sort_SliceStable_st h s lessf = put_elems h s (sort_SliceStable (elems h s) lessf)"

definition flipDuplicateTweetsOnTrivialChanges_st :: "Tweet store \<Rightarrow> slice \<Rightarrow> Tweet store" where
  "flipDuplicateTweetsOnTrivialChanges_st h tweets =
     put_elems h tweets (flipDuplicateTweetsOnTrivialChanges (elems h tweets))"

definition mergeReadings_st :: "Reading store \<Rightarrow> slice \<Rightarrow> slice \<Rightarrow> Reading store \<times> slice" where
  "mergeReadings_st h apiReadings existingReadings =
     (case sliceKeepOnly_st h existingReadings apiReadings ReviewID ReviewID of
        (h1, existingReadings') \<Rightarrow>
     (case go_append h1 apiReadings existingReadings' of
        (h2, s) \<Rightarrow>
     (case sliceUniq_st (sort_SliceStable_st h2 s (\<lambda>a b. ReviewID a <s ReviewID b)) s ReviewID of
        (h4, sMerged) \<Rightarrow> (sliceReverse_st h4 sMerged, sMerged))))"

definition mergeTweets_st :: "Tweet store \<Rightarrow> slice \<Rightarrow> slice \<Rightarrow> Tweet store \<times> slice" where
  "mergeTweets_st h apiTweets existingTweets =
     (case go_append h apiTweets existingTweets of
        (h2, s) \<Rightarrow>
     (case sliceUniq_st
             (flipDuplicateTweetsOnTrivialChanges_st
                (sort_SliceStable_st h2 s (\<lambda>a b. ID a <s ID b)) s) s ID of
        (h4, sMerged) \<Rightarrow> (sliceReverse_st h4 sMerged, sMerged)))"

section \<open>Composite literals of the tests\<close>

text \<open>The tests build their batches from literals such as
  \<^verbatim>\<open>{ID: 124, Text: "sX 124", FavoriteCount: 4, RetweetCount: 4}\<close> and
  \<^verbatim>\<open>{ReviewID: 125, Review: "s1 125"}\<close>; the fields left out hold Go's zero values.\<close>

definition tweetLit :: "int64 \<Rightarrow> string \<Rightarrow> go_int \<Rightarrow> go_int \<Rightarrow> Tweet" where
  "tweetLit i t f r =
     \<lparr>CreatedAt = 0, Entities = None, FavoriteCount = f, ID = i, Reply = None,
      Retweet = None, RetweetCount = r, Text = t\<rparr>"

definition readingLit :: "go_int \<Rightarrow> string \<Rightarrow> Reading" where
  "readingLit i r =
     \<lparr>Authors = None, BookID = 0, ISBN = [], ISBN13 = [], NumPages = 0, PublishedYear = 0,
      ReadAt = 0, Rating = 0, Review = r, ReviewID = i, Title = []\<rparr>"

section \<open>Recursions on lists that the loops compute\<close>

text \<open>The first occurrences of the keys outside \<open>seen\<close>, as a recursion on the list: what the
  loop computes.\<close>

fun uniq_from :: "('a \<Rightarrow> 'k) \<Rightarrow> 'k set \<Rightarrow> 'a list \<Rightarrow> 'a list" where
  "uniq_from selector seen [] = []"
| "uniq_from selector seen (x # xs) =
     (if selector x \<in> seen then uniq_from selector seen xs
      else x # uniq_from selector (insert (selector x) seen) xs)"

text \<open>The test of the loop of \<^verbatim>\<open>flipDuplicateTweetsOnTrivialChanges\<close> on the pair
  \<^verbatim>\<open>(tweets[i], tweets[j])\<close>: none of the three \<^verbatim>\<open>continue\<close>s is taken and both differences are
  below 3. The pass, as a recursion on the list.\<close>

definition trivialChange :: "Tweet \<Rightarrow> Tweet \<Rightarrow> bool" where
  "trivialChange a b =
     (ID a = ID b \<and> Text a = Text b \<and> Entities a = Entities b \<and>
      absInt (FavoriteCount a - FavoriteCount b) <s 3 \<and>
      absInt (RetweetCount a - RetweetCount b) <s 3)"

fun flip_pairs :: "Tweet list \<Rightarrow> Tweet list" where
  "flip_pairs (a # b # xs) =
     (if trivialChange a b then b # flip_pairs (a # xs) else a # flip_pairs (b # xs))"
| "flip_pairs xs = xs"

text \<open>What the pass does to the one or two entries of an identifier.\<close>

fun flip2 :: "Tweet list \<Rightarrow> Tweet list" where
  "flip2 [a, b] = (if trivialChange a b then [b, a] else [a, b])"
| "flip2 xs = xs"

section \<open>The loops compute the recursions\<close>

declare sliceUniq_loop.simps [simp del]

lemma sliceUniq_loop_eq:
  "j \<le> i \<Longrightarrow> i \<le> length s \<Longrightarrow>
   sliceUniq_loop selector s seen j i =
     (take j s @ uniq_from selector seen (drop i s)
        @ drop (j + length (uniq_from selector seen (drop i s))) s,
      j + length (uniq_from selector seen (drop i s)))"
proof (induction selector s seen j i rule: sliceUniq_loop.induct)
  case (1 selector s seen j i)
  show ?case
  proof (cases "i < length s")
    case False
    with "1.prems" show ?thesis
      by (subst sliceUniq_loop.simps) simp
  next
    case True
    then have d: "drop i s = s ! i # drop (Suc i) s"
      by (simp add: Cons_nth_drop_Suc)
    show ?thesis
    proof (cases "selector (s ! i) \<in> seen")
      case seen: True
      have "sliceUniq_loop selector s seen j i = sliceUniq_loop selector s seen j (i + 1)"
        using True seen by (subst sliceUniq_loop.simps) simp
      also have "\<dots> = (take j s @ uniq_from selector seen (drop (i + 1) s)
            @ drop (j + length (uniq_from selector seen (drop (i + 1) s))) s,
          j + length (uniq_from selector seen (drop (i + 1) s)))"
        using "1.IH"(1) [OF True seen] "1.prems" True by simp
      finally show ?thesis
        using seen by (simp add: d)
    next
      case fresh: False
      let ?s1 = "s[j := s ! i]"
      let ?seen1 = "insert (selector (s ! i)) seen"
      let ?u = "uniq_from selector ?seen1 (drop (Suc i) s)"
      have jl: "j < length s"
        using "1.prems" True by simp
      have dr: "drop (i + 1) ?s1 = drop (Suc i) s"
        using "1.prems" by simp
      have tk: "take (j + 1) ?s1 = take j s @ [s ! i]"
        using jl by (simp add: take_Suc_conv_app_nth)
      have dr2: "drop (j + 1 + length ?u) ?s1 = drop (j + 1 + length ?u) s"
        by simp
      have "sliceUniq_loop selector s seen j i =
            sliceUniq_loop selector ?s1 ?seen1 (j + 1) (i + 1)"
        using True fresh by (subst sliceUniq_loop.simps) simp
      also have "\<dots> = (take (j + 1) ?s1 @ uniq_from selector ?seen1 (drop (i + 1) ?s1)
            @ drop (j + 1 + length (uniq_from selector ?seen1 (drop (i + 1) ?s1))) ?s1,
          j + 1 + length (uniq_from selector ?seen1 (drop (i + 1) ?s1)))"
        using "1.IH"(2) [OF True fresh] "1.prems" True by simp
      finally show ?thesis
        using fresh by (simp only: dr tk dr2 d) simp
    qed
  qed
qed

lemma sliceUniq_eq: "sliceUniq s selector = uniq_from selector {} s"
  by (simp add: sliceUniq_def sliceUniq_loop_eq)

declare s2Values_loop.simps [simp del] sliceKeepOnly_loop.simps [simp del]
  sliceReverse_loop.simps [simp del] flip_loop.simps [simp del]

lemma s2Values_loop_eq:
  "i \<le> length s2 \<Longrightarrow>
   s2Values_loop selector2 s2 s2Values i = s2Values \<union> selector2 ` set (drop i s2)"
proof (induction selector2 s2 s2Values i rule: s2Values_loop.induct)
  case (1 selector2 s2 s2Values i)
  show ?case
  proof (cases "i < length s2")
    case True
    then have d: "drop i s2 = s2 ! i # drop (Suc i) s2"
      by (simp add: Cons_nth_drop_Suc)
    have "s2Values_loop selector2 s2 s2Values i =
          s2Values_loop selector2 s2 (insert (selector2 (s2 ! i)) s2Values) (i + 1)"
      using True by (subst s2Values_loop.simps) simp
    also have "\<dots> = insert (selector2 (s2 ! i)) s2Values \<union> selector2 ` set (drop (i + 1) s2)"
      using "1.IH" [OF True] True by simp
    finally show ?thesis
      by (simp add: d)
  next
    case False
    with "1.prems" show ?thesis
      by (subst s2Values_loop.simps) simp
  qed
qed

lemma sliceKeepOnly_loop_eq:
  "j \<le> i \<Longrightarrow> i \<le> length s1 \<Longrightarrow>
   sliceKeepOnly_loop selector1 s1 s2Values j i =
     (take j s1 @ filter (\<lambda>x. selector1 x \<in> s2Values) (drop i s1)
        @ drop (j + length (filter (\<lambda>x. selector1 x \<in> s2Values) (drop i s1))) s1,
      j + length (filter (\<lambda>x. selector1 x \<in> s2Values) (drop i s1)))"
proof (induction selector1 s1 s2Values j i rule: sliceKeepOnly_loop.induct)
  case (1 selector1 s1 s2Values j i)
  let ?P = "\<lambda>x. selector1 x \<in> s2Values"
  show ?case
  proof (cases "i < length s1")
    case False
    with "1.prems" show ?thesis
      by (subst sliceKeepOnly_loop.simps) simp
  next
    case True
    then have d: "drop i s1 = s1 ! i # drop (Suc i) s1"
      by (simp add: Cons_nth_drop_Suc)
    show ?thesis
    proof (cases "selector1 (s1 ! i) \<notin> s2Values")
      case skip: True
      have "sliceKeepOnly_loop selector1 s1 s2Values j i =
            sliceKeepOnly_loop selector1 s1 s2Values j (i + 1)"
        using True skip by (subst sliceKeepOnly_loop.simps) simp
      also have "\<dots> = (take j s1 @ filter ?P (drop (i + 1) s1)
            @ drop (j + length (filter ?P (drop (i + 1) s1))) s1,
          j + length (filter ?P (drop (i + 1) s1)))"
        using "1.IH"(1) [OF True skip] "1.prems" True by simp
      finally show ?thesis
        using skip by (simp add: d)
    next
      case keep: False
      let ?s = "s1[j := s1 ! i]"
      let ?f = "filter ?P (drop (Suc i) s1)"
      have jl: "j < length s1"
        using "1.prems" True by simp
      have dr: "drop (i + 1) ?s = drop (Suc i) s1"
        using "1.prems" by simp
      have tk: "take (j + 1) ?s = take j s1 @ [s1 ! i]"
        using jl by (simp add: take_Suc_conv_app_nth)
      have dr2: "drop (j + 1 + length ?f) ?s = drop (j + 1 + length ?f) s1"
        by simp
      have "sliceKeepOnly_loop selector1 s1 s2Values j i =
            sliceKeepOnly_loop selector1 ?s s2Values (j + 1) (i + 1)"
        using True keep by (subst sliceKeepOnly_loop.simps) simp
      also have "\<dots> = (take (j + 1) ?s @ filter ?P (drop (i + 1) ?s)
            @ drop (j + 1 + length (filter ?P (drop (i + 1) ?s))) ?s,
          j + 1 + length (filter ?P (drop (i + 1) ?s)))"
        using "1.IH"(2) [OF True keep] "1.prems" True by simp
      finally show ?thesis
        using keep by (simp only: dr tk dr2 d) simp
    qed
  qed
qed

lemma sliceKeepOnly_eq:
  "sliceKeepOnly s1 s2 selector1 selector2 =
     filter (\<lambda>x. selector1 x \<in> selector2 ` set s2) s1"
  by (simp add: sliceKeepOnly_def sliceKeepOnly_loop_eq s2Values_loop_eq)

lemma swap_length [simp]: "length (swap s i j) = length s"
  by (simp add: swap_def)

lemma swap_nth:
  "i < length s \<Longrightarrow> j < length s \<Longrightarrow> k < length s \<Longrightarrow>
   swap s i j ! k = (if k = j then s ! i else if k = i then s ! j else s ! k)"
  by (simp add: swap_def nth_list_update)

lemma sliceReverse_loop_length [simp]: "length (sliceReverse_loop s i j) = length s"
proof (induction s i j rule: sliceReverse_loop.induct)
  case (1 s i j)
  then show ?case
    by (subst sliceReverse_loop.simps) simp
qed

lemma sliceReverse_loop_nth:
  "0 \<le> i \<Longrightarrow> j < int (length s) \<Longrightarrow> k < length s \<Longrightarrow>
   sliceReverse_loop s i j ! k =
     (if i \<le> int k \<and> int k \<le> j then s ! nat (i + j - int k) else s ! k)"
proof (induction s i j rule: sliceReverse_loop.induct)
  case (1 s i j)
  show ?case
  proof (cases "i < j")
    case False
    then have "sliceReverse_loop s i j = s"
      by (subst sliceReverse_loop.simps) simp
    moreover have "i \<le> int k \<and> int k \<le> j \<Longrightarrow> nat (i + j - int k) = k"
      using False by linarith
    ultimately show ?thesis
      by auto
  next
    case True
    have il: "nat i < length s" and jl: "nat j < length s"
      using True "1.prems" by linarith+
    have "sliceReverse_loop s i j ! k =
          sliceReverse_loop (swap s (nat i) (nat j)) (i + 1) (j - 1) ! k"
      using True by (subst sliceReverse_loop.simps) simp
    also have "\<dots> = (if i + 1 \<le> int k \<and> int k \<le> j - 1
        then swap s (nat i) (nat j) ! nat (i + 1 + (j - 1) - int k)
        else swap s (nat i) (nat j) ! k)"
      using "1.IH" [OF True] "1.prems" by simp
    also have "\<dots> = (if i \<le> int k \<and> int k \<le> j then s ! nat (i + j - int k) else s ! k)"
    proof (cases "i + 1 \<le> int k \<and> int k \<le> j - 1")
      case mid: True
      then have m: "nat (i + j - int k) < length s" "nat (i + j - int k) \<noteq> nat i"
        "nat (i + j - int k) \<noteq> nat j"
        using "1.prems" by linarith+
      show ?thesis
        using mid m il jl by (simp add: swap_nth)
    next
      case out: False
      consider "int k = i" | "int k = j" | "int k < i" | "j < int k"
        using out by linarith
      then show ?thesis
      proof cases
        case 1
        then have "k = nat i" by simp
        then show ?thesis
          using True il jl "1.prems" by (simp add: swap_nth)
      next
        case 2
        then have "k = nat j" by simp
        then show ?thesis
          using True il jl "1.prems" by (simp add: swap_nth)
      next
        case 3
        then have "k \<noteq> nat i" "k \<noteq> nat j" using True "1.prems" by linarith+
        then show ?thesis
          using 3 True il jl "1.prems" by (simp add: swap_nth)
      next
        case 4
        then have "k \<noteq> nat i" "k \<noteq> nat j" using True "1.prems" by linarith+
        then show ?thesis
          using 4 True il jl "1.prems" by (simp add: swap_nth)
      qed
    qed
    finally show ?thesis .
  qed
qed

lemma sliceReverse_eq: "sliceReverse s = rev s"
proof (rule nth_equalityI)
  show "length (sliceReverse s) = length (rev s)"
    by (simp add: sliceReverse_def)
next
  fix k
  assume "k < length (sliceReverse s)"
  then have k: "k < length s"
    by (simp add: sliceReverse_def)
  then have "nat (int (length s) - 1 - int k) = length s - Suc k"
    by linarith
  with k show "sliceReverse s ! k = rev s ! k"
    by (simp add: sliceReverse_def sliceReverse_loop_nth rev_nth)
qed

lemma swap_adjacent:
  "Suc i < length s \<Longrightarrow> swap s i (Suc i) = take i s @ s ! Suc i # s ! i # drop (Suc (Suc i)) s"
proof (rule nth_equalityI)
  assume a: "Suc i < length s"
  then show "length (swap s i (Suc i)) = length (take i s @ s ! Suc i # s ! i # drop (Suc (Suc i)) s)"
    by simp
  fix k assume "k < length (swap s i (Suc i))"
  then have k: "k < length s" by simp
  consider "k < i" | "k = i" | "k = Suc i" | "Suc i < k" by linarith
  then show "swap s i (Suc i) ! k = (take i s @ s ! Suc i # s ! i # drop (Suc (Suc i)) s) ! k"
  proof cases
    case 1 then show ?thesis using a k by (simp add: swap_nth nth_append)
  next
    case 2 then show ?thesis using a k by (simp add: swap_nth nth_append)
  next
    case 3 then show ?thesis using a k by (simp add: swap_nth nth_append)
  next
    case 4
    then obtain d where d: "k = Suc (Suc i) + d"
      by (metis add_Suc less_iff_Suc_add)
    show ?thesis using a k 4 by (simp add: swap_nth nth_append d)
  qed
qed

lemma flip_loop_eq:
  "j = i + 1 \<Longrightarrow> flip_loop tweets i j = take i tweets @ flip_pairs (drop i tweets)"
proof (induction tweets i j rule: flip_loop.induct)
  case (1 tweets i j)
  show ?case
  proof (cases "j < length tweets")
    case False
    then have "length (drop i tweets) \<le> 1"
      using "1.prems" by simp
    then have "flip_pairs (drop i tweets) = drop i tweets"
      by (cases "drop i tweets" rule: flip_pairs.cases) auto
    moreover have "flip_loop tweets i j = tweets"
      using False by (subst flip_loop.simps) simp
    ultimately show ?thesis by simp
  next
    case True
    have j: "j = Suc i" using "1.prems" by simp
    have d: "drop i tweets = tweets ! i # tweets ! j # drop (Suc j) tweets"
      using True j by (simp add: Cons_nth_drop_Suc Suc_lessD)
    have d2: "drop (Suc i) tweets = tweets ! j # drop (Suc j) tweets"
      using True j by (simp add: Cons_nth_drop_Suc)
    have tk: "take (Suc i) tweets = take i tweets @ [tweets ! i]"
      using True j by (simp add: take_Suc_conv_app_nth Suc_lessD)
    show ?thesis
    proof (cases "trivialChange (tweets ! i) (tweets ! j)")
      case sw: True
      let ?t = "swap tweets i j"
      have "flip_loop tweets i j = flip_loop ?t (i + 1) (j + 1)"
        using True sw by (subst flip_loop.simps) (simp add: trivialChange_def)
      also have "\<dots> = take (i + 1) ?t @ flip_pairs (drop (i + 1) ?t)"
        using "1.IH"(4) True sw j by (simp add: trivialChange_def)
      also have "take (i + 1) ?t = take i tweets @ [tweets ! j]"
        using True j by (simp add: swap_adjacent)
      also have "drop (i + 1) ?t = tweets ! i # drop (Suc j) tweets"
        using True j by (simp add: swap_adjacent)
      finally show ?thesis
        using sw by (simp add: d)
    next
      case nsw: False
      have "flip_loop tweets i j = flip_loop tweets (i + 1) (j + 1)"
        using True nsw by (subst flip_loop.simps) (auto simp: trivialChange_def)
      also have "\<dots> = take (i + 1) tweets @ flip_pairs (drop (i + 1) tweets)"
        using "1.IH"(1,2,3,5) True nsw j
        by (auto simp: trivialChange_def)
      finally show ?thesis
        using nsw by (simp add: tk d d2)
    qed
  qed
qed

lemma flipDuplicateTweetsOnTrivialChanges_eq:
  "flipDuplicateTweetsOnTrivialChanges tweets = flip_pairs tweets"
  by (simp add: flipDuplicateTweetsOnTrivialChanges_def flip_loop_eq)

lemma insert_stable_insort:
  "insert_stable (\<lambda>a b. key a <s key b) x ys = insort_key (\<lambda>a. sint (key a)) x ys"
  by (induction ys) (auto simp: word_sless_alt)

lemma sort_SliceStable_sort_key:
  "sort_SliceStable s (\<lambda>a b. key a <s key b) = sort_key (\<lambda>a. sint (key a)) s"
proof -
  have "insert_stable (\<lambda>a b. key a <s key b) = insort_key (\<lambda>a. sint (key a))"
    by (intro ext) (rule insert_stable_insort)
  then show ?thesis
    by (simp add: sort_SliceStable_def sort_key_def)
qed

section \<open>The generic helpers\<close>

lemma uniq_from_filter:
  "filter (\<lambda>x. selector x = v) (uniq_from selector seen xs) =
     (if v \<in> seen then [] else take 1 (filter (\<lambda>x. selector x = v) xs))"
  by (induction xs arbitrary: seen) auto

lemma set_uniq_from: "selector ` set (uniq_from selector seen xs) = selector ` set xs - seen"
  by (induction xs arbitrary: seen) auto

lemma uniq_from_keys_notin: "x \<in> set (uniq_from selector seen xs) \<Longrightarrow> selector x \<notin> seen"
  by (induction xs arbitrary: seen) (auto split: if_splits)

lemma distinct_uniq_from: "distinct (map selector (uniq_from selector seen xs))"
  by (induction xs arbitrary: seen) (auto dest: uniq_from_keys_notin)

lemma subseq_uniq_from: "subseq (uniq_from selector seen xs) xs"
  by (induction xs arbitrary: seen) auto

lemma uniq_from_index:
  "uniq_from selector seen xs =
     map ((!) xs) (filter (\<lambda>i. selector (xs ! i) \<notin> seen \<and> (\<forall>j<i. selector (xs ! j) \<noteq> selector (xs ! i)))
        [0..<length xs])"
proof (induction xs arbitrary: seen)
  case Nil
  then show ?case by simp
next
  case (Cons x xs)
  have upt: "[0..<length (x # xs)] = 0 # map Suc [0..<length xs]"
    by (simp add: upt_conv_Cons map_Suc_upt del: upt_Suc)
  have eq1: "selector x \<in> seen \<Longrightarrow>
      filter (\<lambda>i. selector (xs ! i) \<notin> seen \<and> selector x \<noteq> selector (xs ! i) \<and> (\<forall>j<i. selector (xs ! j) \<noteq> selector (xs ! i))) [0..<length xs]
    = filter (\<lambda>i. selector (xs ! i) \<notin> seen \<and> (\<forall>j<i. selector (xs ! j) \<noteq> selector (xs ! i))) [0..<length xs]"
    by (rule filter_cong) auto
  have eq2: "filter (\<lambda>i. selector (xs ! i) \<notin> seen \<and> selector x \<noteq> selector (xs ! i) \<and> (\<forall>j<i. selector (xs ! j) \<noteq> selector (xs ! i))) [0..<length xs]
    = filter (\<lambda>i. selector (xs ! i) \<noteq> selector x \<and> selector (xs ! i) \<notin> seen \<and> (\<forall>j<i. selector (xs ! j) \<noteq> selector (xs ! i))) [0..<length xs]"
    by (rule filter_cong) auto
  show ?case
  proof (cases "selector x \<in> seen")
    case True
    then show ?thesis
      by (simp only: upt) (simp add: Cons.IH [of seen] filter_map o_def All_less_Suc2 eq1)
  next
    case False
    then show ?thesis
      by (simp only: upt) (simp add: Cons.IH [of "insert (selector x) seen"] filter_map o_def All_less_Suc2 eq2)
  qed
qed

text \<open>
  Claim C8. For every sequence \<open>s\<close> and key function \<open>selector\<close>, no two elements of
  \<open>sliceUniq s selector\<close> have the same key; the result is a subsequence of \<open>s\<close>; and it
  is, in the order of \<open>s\<close>, exactly the elements at the positions \<open>i\<close> where a key
  occurs for the first time (no earlier position \<open>j\<close> holds the same key).
\<close>

theorem sliceUniq_first_occurrences:
  "distinct (map selector (sliceUniq s selector)) \<and>
   subseq (sliceUniq s selector) s \<and>
   sliceUniq s selector =
     map ((!) s) (filter (\<lambda>i. \<forall>j<i. selector (s ! j) \<noteq> selector (s ! i)) [0..<length s])"
proof (intro conjI)
  show "distinct (map selector (sliceUniq s selector))"
    by (simp only: sliceUniq_eq distinct_uniq_from)
  show "subseq (sliceUniq s selector) s"
    by (simp only: sliceUniq_eq subseq_uniq_from)
  show "sliceUniq s selector =
     map ((!) s) (filter (\<lambda>i. \<forall>j<i. selector (s ! j) \<noteq> selector (s ! i)) [0..<length s])"
    by (simp add: sliceUniq_eq uniq_from_index)
qed

theorem sliceUniq_first_occurrences_witness:
  "sliceUniq [1, 2, 2, 3, 4, 5, 6, 7, 7, 7, 8, 9 :: int] id = [1, 2, 3, 4, 5, 6, 7, 8, 9] \<and>
   distinct (map id (sliceUniq [1, 2, 2, 3, 4, 5, 6, 7, 7, 7, 8, 9 :: int] id)) \<and>
   subseq (sliceUniq [1, 2, 2, 3, 4, 5, 6, 7, 7, 7, 8, 9 :: int] id)
     [1, 2, 2, 3, 4, 5, 6, 7, 7, 7, 8, 9]"
proof -
  have "sliceUniq [1, 2, 2, 3, 4, 5, 6, 7, 7, 7, 8, 9 :: int] id = [1, 2, 3, 4, 5, 6, 7, 8, 9]"
    by (simp add: sliceUniq_eq)
  moreover note sliceUniq_first_occurrences [of id "[1, 2, 2, 3, 4, 5, 6, 7, 7, 7, 8, 9 :: int]"]
  ultimately show ?thesis by blast
qed

text \<open>
  Claim C9. For every primary sequence \<open>s1\<close>, reference sequence \<open>s2\<close> and key functions,
  \<open>sliceKeepOnly s1 s2 selector1 selector2\<close> is a subsequence of \<open>s1\<close> and consists, in
  the order of \<open>s1\<close>, of exactly the elements of \<open>s1\<close> whose key is the key of some
  element of \<open>s2\<close>.
\<close>

theorem sliceKeepOnly_subsequence:
  "subseq (sliceKeepOnly s1 s2 selector1 selector2) s1 \<and>
   sliceKeepOnly s1 s2 selector1 selector2 =
     filter (\<lambda>x. selector1 x \<in> selector2 ` set s2) s1"
  by (simp add: sliceKeepOnly_eq)

theorem sliceKeepOnly_subsequence_witness:
  "sliceKeepOnly [125, 124, 123 :: int] [125, 123 :: int] id id = [125, 123] \<and>
   subseq (sliceKeepOnly [125, 124, 123 :: int] [125, 123 :: int] id id) [125, 124, 123]"
proof -
  have "sliceKeepOnly [125, 124, 123 :: int] [125, 123 :: int] id id = [125, 123]"
    by (simp add: sliceKeepOnly_eq)
  moreover note sliceKeepOnly_subsequence [of "[125, 124, 123 :: int]" "[125, 123 :: int]" id id]
  ultimately show ?thesis by blast
qed

section \<open>The anti-churn pass\<close>

lemma mset_flip_pairs: "mset (flip_pairs xs) = mset xs"
  by (induction xs rule: flip_pairs.induct) auto

lemma map_ID_flip_pairs: "map ID (flip_pairs xs) = map ID xs"
  by (induction xs rule: flip_pairs.induct) (auto simp: trivialChange_def)

text \<open>
  Claim C10. For every tweet sequence, \<open>flipDuplicateTweetsOnTrivialChanges\<close> returns a
  permutation of it (the same multiset of elements); the sequence of identifiers is left as
  it is, position by position, since only two neighbours with the same identifier are ever
  exchanged; so a sequence sorted ascending by identifier is still sorted ascending by
  identifier afterwards.
\<close>

theorem flipDuplicateTweetsOnTrivialChanges_permutation:
  "mset (flipDuplicateTweetsOnTrivialChanges tweets) = mset tweets \<and>
   map ID (flipDuplicateTweetsOnTrivialChanges tweets) = map ID tweets \<and>
   (sorted_wrt (\<lambda>a b. ID a \<le>s ID b) tweets \<longrightarrow>
    sorted_wrt (\<lambda>a b. ID a \<le>s ID b) (flipDuplicateTweetsOnTrivialChanges tweets))"
proof (intro conjI impI)
  show "mset (flipDuplicateTweetsOnTrivialChanges tweets) = mset tweets"
    by (simp add: flipDuplicateTweetsOnTrivialChanges_eq mset_flip_pairs)
  show ids: "map ID (flipDuplicateTweetsOnTrivialChanges tweets) = map ID tweets"
    by (simp add: flipDuplicateTweetsOnTrivialChanges_eq map_ID_flip_pairs)
  assume "sorted_wrt (\<lambda>a b. ID a \<le>s ID b) tweets"
  then have "sorted_wrt (\<le>s) (map ID tweets)"
    by (simp add: sorted_wrt_map)
  then have "sorted_wrt (\<le>s) (map ID (flipDuplicateTweetsOnTrivialChanges tweets))"
    by (simp only: ids)
  then show "sorted_wrt (\<lambda>a b. ID a \<le>s ID b) (flipDuplicateTweetsOnTrivialChanges tweets)"
    by (simp add: sorted_wrt_map)
qed

theorem flipDuplicateTweetsOnTrivialChanges_permutation_witness:
  "sorted_wrt (\<lambda>a b. ID a \<le>s ID b)
     [tweetLit 123 ''s2 123'' 0 0, tweetLit 124 ''sX 124'' 4 4, tweetLit 124 ''sX 124'' 2 2,
      tweetLit 125 ''s1 125'' 0 0] \<and>
   flipDuplicateTweetsOnTrivialChanges
     [tweetLit 123 ''s2 123'' 0 0, tweetLit 124 ''sX 124'' 4 4, tweetLit 124 ''sX 124'' 2 2,
      tweetLit 125 ''s1 125'' 0 0] =
     [tweetLit 123 ''s2 123'' 0 0, tweetLit 124 ''sX 124'' 2 2, tweetLit 124 ''sX 124'' 4 4,
      tweetLit 125 ''s1 125'' 0 0] \<and>
   sorted_wrt (\<lambda>a b. ID a \<le>s ID b)
     (flipDuplicateTweetsOnTrivialChanges
       [tweetLit 123 ''s2 123'' 0 0, tweetLit 124 ''sX 124'' 4 4, tweetLit 124 ''sX 124'' 2 2,
        tweetLit 125 ''s1 125'' 0 0])"
proof -
  let ?in = "[tweetLit 123 ''s2 123'' 0 0, tweetLit 124 ''sX 124'' 4 4,
    tweetLit 124 ''sX 124'' 2 2, tweetLit 125 ''s1 125'' 0 0]"
  have s: "sorted_wrt (\<lambda>a b. ID a \<le>s ID b) ?in"
    by (simp add: tweetLit_def word_sle_eq)
  have e: "flipDuplicateTweetsOnTrivialChanges ?in =
     [tweetLit 123 ''s2 123'' 0 0, tweetLit 124 ''sX 124'' 2 2, tweetLit 124 ''sX 124'' 4 4,
      tweetLit 125 ''s1 125'' 0 0]"
    by (simp add: flipDuplicateTweetsOnTrivialChanges_eq trivialChange_def absInt_def
        tweetLit_def word_sless_alt)
  from s flipDuplicateTweetsOnTrivialChanges_permutation [of ?in]
  have "sorted_wrt (\<lambda>a b. ID a \<le>s ID b) (flipDuplicateTweetsOnTrivialChanges ?in)"
    by blast
  with s e show ?thesis by blast
qed

section \<open>The reconcilers\<close>

lemma sint_eq_iff: "sint a = sint b \<longleftrightarrow> a = b"
  by (auto intro: signed_word_eqI)

lemma mergeTweets_eq:
  "mergeTweets apiTweets existingTweets =
     rev (uniq_from ID {} (flip_pairs (sort_key (\<lambda>t. sint (ID t)) (apiTweets @ existingTweets))))"
  by (simp add: mergeTweets_def Let_def sliceReverse_eq sliceUniq_eq
      flipDuplicateTweetsOnTrivialChanges_eq sort_SliceStable_sort_key)

lemma mergeReadings_eq:
  "mergeReadings apiReadings existingReadings =
     rev (uniq_from ReviewID {} (sort_key (\<lambda>r. sint (ReviewID r))
       (apiReadings @ filter (\<lambda>x. ReviewID x \<in> ReviewID ` set apiReadings) existingReadings)))"
  by (simp add: mergeReadings_def Let_def sliceReverse_eq sliceUniq_eq sliceKeepOnly_eq
      sort_SliceStable_sort_key)

lemma set_uniq_from_subset: "set (uniq_from selector seen xs) \<subseteq> set xs"
  by (induction xs arbitrary: seen) auto

lemma sorted_uniq_from:
  "sorted (map k xs) \<Longrightarrow> sorted (map k (uniq_from selector seen xs))"
  by (induction xs arbitrary: seen) (auto dest: set_mp [OF set_uniq_from_subset])

lemma descending_rev_uniq_from:
  assumes "sorted (map (\<lambda>x. sint (key x)) xs)"
  shows "sorted_wrt (\<lambda>a b. key b <s key a) (rev (uniq_from key {} xs))"
proof -
  let ?u = "uniq_from key {} xs"
  have "distinct (map key ?u)"
    by (rule distinct_uniq_from)
  then have "distinct (map sint (map key ?u))"
    by (simp add: distinct_map inj_on_def sint_eq_iff)
  moreover have "sorted (map sint (map key ?u))"
    using sorted_uniq_from [OF assms] by (simp add: o_def)
  ultimately have "sorted_wrt (<) (map sint (map key ?u))"
    by (simp add: strict_sorted_iff)
  then have "sorted_wrt (\<lambda>a b. key a <s key b) ?u"
    by (simp add: sorted_wrt_map word_sless_alt)
  then show ?thesis
    by (simp add: sorted_wrt_rev)
qed

lemma sorted_flip_pairs:
  "sorted (map (\<lambda>t. sint (ID t)) xs) \<Longrightarrow> sorted (map (\<lambda>t. sint (ID t)) (flip_pairs xs))"
proof -
  assume "sorted (map (\<lambda>t. sint (ID t)) xs)"
  then have "sorted (map sint (map ID xs))" by (simp add: o_def)
  then have "sorted (map sint (map ID (flip_pairs xs)))" by (simp only: map_ID_flip_pairs)
  then show ?thesis by (simp add: o_def)
qed

lemma descending_distinct:
  "sorted_wrt (\<lambda>a b. key b <s key a) xs \<Longrightarrow> distinct (map key xs)"
  by (induction xs) auto

lemma mergeTweets_descending:
  "sorted_wrt (\<lambda>a b. ID b <s ID a) (mergeTweets apiTweets existingTweets)"
  unfolding mergeTweets_eq
  by (rule descending_rev_uniq_from) (simp add: sorted_flip_pairs)

lemma mergeReadings_descending:
  "sorted_wrt (\<lambda>a b. ReviewID b <s ReviewID a) (mergeReadings apiReadings existingReadings)"
  unfolding mergeReadings_eq
  by (rule descending_rev_uniq_from) simp

lemma ids_uniq_from: "selector ` set (uniq_from selector {} xs) = selector ` set xs"
  by (simp add: set_uniq_from)

lemma ids_flip_pairs: "ID ` set (flip_pairs xs) = ID ` set xs"
proof -
  have "set (map ID (flip_pairs xs)) = set (map ID xs)"
    by (simp only: map_ID_flip_pairs)
  then show ?thesis by simp
qed

lemma mergeTweets_ids:
  "ID ` set (mergeTweets apiTweets existingTweets) = ID ` set apiTweets \<union> ID ` set existingTweets"
  by (simp add: mergeTweets_eq ids_uniq_from ids_flip_pairs image_Un)

lemma mergeReadings_ids:
  "ReviewID ` set (mergeReadings apiReadings existingReadings) = ReviewID ` set apiReadings"
  by (auto simp: mergeReadings_eq ids_uniq_from image_Un)


lemma filter_key_distinct:
  "distinct (map key xs) \<Longrightarrow> x \<in> set xs \<Longrightarrow> filter (\<lambda>y. key y = key x) xs = [x]"
proof (induction xs)
  case Nil
  then show ?case by simp
next
  case (Cons a xs)
  have none: "key x \<notin> key ` set xs \<Longrightarrow> filter (\<lambda>y. key y = key x) xs = []"
    by (force simp: filter_empty_conv image_iff)
  show ?case
  proof (cases "x = a")
    case True
    with Cons.prems none show ?thesis by simp
  next
    case False
    with Cons.prems have "x \<in> set xs" "key a \<noteq> key x" by auto
    with Cons show ?thesis by simp
  qed
qed

lemma filter_key_distinct_le:
  "distinct (map key xs) \<Longrightarrow> length (filter (\<lambda>y. key y = v) xs) \<le> 1"
proof (cases "v \<in> key ` set xs")
  case True
  assume d: "distinct (map key xs)"
  from True obtain x where "x \<in> set xs" "v = key x" by auto
  with filter_key_distinct [OF d] show ?thesis by simp
next
  case False
  then have "filter (\<lambda>y. key y = v) xs = []"
    by (force simp: filter_empty_conv image_iff)
  then show ?thesis by simp
qed

lemma filter_key_sort_key:
  "filter (\<lambda>y. key y = v) (sort_key (\<lambda>a. sint (key a)) xs) = filter (\<lambda>y. key y = v) xs"
  using sort_key_stable [of "\<lambda>a. sint (key a)" "sint v" xs]
  by (simp add: sint_eq_iff)

text \<open>
  The insertion sort meets the contract of \<^verbatim>\<open>sort.SliceStable\<close> for the comparisons of the
  callers (\<open>key a <s key b\<close> on a 64-bit key): the result is a permutation, ordered by the
  key, with the elements of each key in their original order. Any list with these three
  properties is the result, so the model does not depend on the sorting algorithm.
\<close>

lemma sort_SliceStable_props:
  "mset (sort_SliceStable s (\<lambda>a b. key a <s key b)) = mset s"
  "sorted_wrt (\<lambda>a b. \<not> key b <s key a) (sort_SliceStable s (\<lambda>a b. key a <s key b))"
  "filter (\<lambda>x. key x = k) (sort_SliceStable s (\<lambda>a b. key a <s key b)) = filter (\<lambda>x. key x = k) s"
proof -
  show "mset (sort_SliceStable s (\<lambda>a b. key a <s key b)) = mset s"
    by (simp add: sort_SliceStable_sort_key)
  have "sorted (map (\<lambda>a. sint (key a)) (sort_key (\<lambda>a. sint (key a)) s))"
    by simp
  then have "sorted_wrt (\<lambda>a b. sint (key a) \<le> sint (key b)) (sort_key (\<lambda>a. sint (key a)) s)"
    by (simp only: sorted_wrt_map)
  then have "sorted_wrt (\<lambda>a b. \<not> key b <s key a) (sort_key (\<lambda>a. sint (key a)) s)"
    by (simp add: word_sless_alt not_less)
  then show "sorted_wrt (\<lambda>a b. \<not> key b <s key a) (sort_SliceStable s (\<lambda>a b. key a <s key b))"
    by (simp only: sort_SliceStable_sort_key)
  show "filter (\<lambda>x. key x = k) (sort_SliceStable s (\<lambda>a b. key a <s key b)) = filter (\<lambda>x. key x = k) s"
    by (simp add: sort_SliceStable_sort_key filter_key_sort_key)
qed

lemma sort_SliceStable_unique:
  assumes "mset ys = mset s"
    and "sorted_wrt (\<lambda>a b. \<not> key b <s key a) ys"
    and "\<And>k. filter (\<lambda>x. key x = k) ys = filter (\<lambda>x. key x = k) s"
  shows "sort_SliceStable s (\<lambda>a b. key a <s key b) = ys"
proof -
  have "sort_key (\<lambda>a. sint (key a)) s = ys"
  proof (rule properties_for_sort_key)
    show "mset ys = mset s" by fact
    show "filter (\<lambda>x. sint (key k) = sint (key x)) ys = filter (\<lambda>x. sint (key k) = sint (key x)) s"
      for k
      using assms(3) [of "key k"] by (simp add: sint_eq_iff eq_commute)
    have "sorted_wrt (\<lambda>a b. sint (key a) \<le> sint (key b)) ys"
      using assms(2) by (simp add: word_sless_alt not_less)
    then show "sorted (map (\<lambda>a. sint (key a)) ys)"
      by (simp add: sorted_wrt_map)
  qed
  then show ?thesis
    by (simp add: sort_SliceStable_sort_key)
qed

lemma flip2_short: "length xs \<le> 1 \<Longrightarrow> flip2 xs = xs"
  by (cases xs rule: flip2.cases) auto

lemma filter_flip_pairs:
  "sorted (map (\<lambda>t. sint (ID t)) xs) \<Longrightarrow>
   (\<And>v. length (filter (\<lambda>t. ID t = v) xs) \<le> 2) \<Longrightarrow>
   filter (\<lambda>t. ID t = x) (flip_pairs xs) = flip2 (filter (\<lambda>t. ID t = x) xs)"
proof (induction xs rule: flip_pairs.induct)
  case (1 a b xs)
  let ?G = "\<lambda>ys. filter (\<lambda>t. ID t = x) ys"
  have s_a: "sorted (map (\<lambda>t. sint (ID t)) (a # xs))"
    and s_b: "sorted (map (\<lambda>t. sint (ID t)) (b # xs))"
    using "1.prems"(1) by auto
  have l_a: "length (filter (\<lambda>t. ID t = v) (a # xs)) \<le> 2"
    and l_b: "length (filter (\<lambda>t. ID t = v) (b # xs)) \<le> 2" for v
    using "1.prems"(2) [of v] by (auto split: if_splits)
  have same: "ID a = ID b \<Longrightarrow> filter (\<lambda>t. ID t = ID a) xs = []"
    using "1.prems"(2) [of "ID a"] by simp
  have diff: "ID a \<noteq> ID b \<Longrightarrow> filter (\<lambda>t. ID t = ID a) (b # xs) = []"
  proof -
    assume n: "ID a \<noteq> ID b"
    have "sint (ID a) < sint (ID t)" if "t \<in> set (b # xs)" for t
    proof -
      have "sint (ID a) \<le> sint (ID b)" "sint (ID b) \<le> sint (ID t)"
        using "1.prems"(1) that by auto
      moreover have "sint (ID a) \<noteq> sint (ID b)"
        using n by (simp add: sint_eq_iff)
      ultimately show ?thesis by linarith
    qed
    then have "ID t \<noteq> ID a" if "t \<in> set (b # xs)" for t
      using that by fastforce
    then show ?thesis
      by (simp add: filter_empty_conv)
  qed
  show ?case
  proof (cases "trivialChange a b")
    case True
    then have ab: "ID a = ID b" by (simp add: trivialChange_def)
    have ih: "?G (flip_pairs (a # xs)) = flip2 (?G (a # xs))"
      using "1.IH"(1) [OF True s_a l_a] .
    show ?thesis
    proof (cases "x = ID a")
      case xa: True
      then show ?thesis
        using True ab ih same by simp
    next
      case False
      then show ?thesis
        using True ab ih by simp
    qed
  next
    case False
    have ih: "?G (flip_pairs (b # xs)) = flip2 (?G (b # xs))"
      using "1.IH"(2) [OF False s_b l_b] .
    show ?thesis
    proof (cases "x = ID a")
      case xa: True
      show ?thesis
      proof (cases "ID a = ID b")
        case True
        then show ?thesis
          using False xa ih same by simp
      next
        case nab: False
        then show ?thesis
          using False xa ih diff by simp
      qed
    next
      case nxa: False
      then show ?thesis
        using False ih by simp
    qed
  qed
qed simp_all

lemma flip_pairs_distinct: "distinct (map ID xs) \<Longrightarrow> flip_pairs xs = xs"
  by (induction xs rule: flip_pairs.induct) (auto simp: trivialChange_def)

lemma uniq_from_distinct:
  "distinct (map selector xs) \<Longrightarrow> selector ` set xs \<inter> seen = {} \<Longrightarrow>
   uniq_from selector seen xs = xs"
  by (induction xs arbitrary: seen) auto

lemma rev_filter_key_distinct:
  "distinct (map key xs) \<Longrightarrow>
   rev (filter (\<lambda>y. key y = v) xs) = filter (\<lambda>y. key y = v) xs"
proof -
  assume "distinct (map key xs)"
  then have "length (filter (\<lambda>y. key y = v) xs) \<le> 1"
    by (rule filter_key_distinct_le)
  then show ?thesis
    by (cases "filter (\<lambda>y. key y = v) xs") auto
qed

lemma sort_key_descending:
  assumes "sorted_wrt (\<lambda>a b. key b <s key a) xs"
  shows "sort_key (\<lambda>a. sint (key a)) xs = rev xs"
proof (rule properties_for_sort_key)
  show "mset (rev xs) = mset xs" by simp
  have d: "distinct (map (\<lambda>a. sint (key a)) xs)"
    using descending_distinct [OF assms]
    by (simp add: distinct_map inj_on_def sint_eq_iff)
  show "filter (\<lambda>x. sint (key k) = sint (key x)) (rev xs) =
        filter (\<lambda>x. sint (key k) = sint (key x)) xs" for k
    using rev_filter_key_distinct [OF d, of "sint (key k)"]
    by (simp add: rev_filter eq_commute)
  have "sorted_wrt (\<lambda>a b. sint (key a) < sint (key b)) (rev xs)"
    using assms by (simp add: sorted_wrt_rev word_sless_alt)
  then have "sorted_wrt (<) (map (\<lambda>a. sint (key a)) (rev xs))"
    by (simp only: sorted_wrt_map)
  then show "sorted (map (\<lambda>a. sint (key a)) (rev xs))"
    by (rule strict_sorted_imp_sorted)
qed

lemma mergeTweets_descending_id:
  assumes "sorted_wrt (\<lambda>a b. ID b <s ID a) merged"
  shows "mergeTweets merged [] = merged"
proof -
  have d: "distinct (map ID (rev merged))"
    using descending_distinct [OF assms] by (simp add: rev_map [symmetric])
  show ?thesis
    by (simp add: mergeTweets_eq sort_key_descending [OF assms] flip_pairs_distinct [OF d]
        uniq_from_distinct [OF d])
qed


lemma mergeTweets_entry:
  assumes "distinct (map ID apiTweets)" and "distinct (map ID existingTweets)"
    and f: "fresh \<in> set apiTweets" and s: "stored \<in> set existingTweets"
    and eq: "ID fresh = ID stored"
  shows "filter (\<lambda>t. ID t = ID fresh) (mergeTweets apiTweets existingTweets) =
     [if trivialChange fresh stored then stored else fresh]"
proof -
  let ?L = "sort_key (\<lambda>t. sint (ID t)) (apiTweets @ existingTweets)"
  let ?G = "\<lambda>v ys. filter (\<lambda>t. ID t = v) ys"
  have g: "?G (ID fresh) ?L = [fresh, stored]"
    using filter_key_distinct [OF assms(1) f] filter_key_distinct [OF assms(2) s] eq
    by (simp add: filter_key_sort_key)
  have le: "length (?G v ?L) \<le> 2" for v
    using filter_key_distinct_le [OF assms(1), of v] filter_key_distinct_le [OF assms(2), of v]
    by (simp add: filter_key_sort_key)
  have "?G (ID fresh) (flip_pairs ?L) = flip2 (?G (ID fresh) ?L)"
    by (rule filter_flip_pairs) (simp_all add: le)
  then have "?G (ID fresh) (uniq_from ID {} (flip_pairs ?L)) =
      [if trivialChange fresh stored then stored else fresh]"
    by (simp add: uniq_from_filter g)
  then have "rev (?G (ID fresh) (uniq_from ID {} (flip_pairs ?L))) =
      [if trivialChange fresh stored then stored else fresh]"
    by simp
  then show ?thesis
    by (simp only: mergeTweets_eq rev_filter)
qed

lemma mergeReadings_entry:
  assumes "distinct (map ReviewID apiReadings)" and f: "fresh \<in> set apiReadings"
  shows "filter (\<lambda>r. ReviewID r = ReviewID fresh) (mergeReadings apiReadings existingReadings)
     = [fresh]"
proof -
  let ?kept = "filter (\<lambda>x. ReviewID x \<in> ReviewID ` set apiReadings) existingReadings"
  let ?L = "sort_key (\<lambda>r. sint (ReviewID r)) (apiReadings @ ?kept)"
  let ?G = "\<lambda>ys. filter (\<lambda>r. ReviewID r = ReviewID fresh) ys"
  have "?G ?L = fresh # ?G ?kept"
    using filter_key_distinct [OF assms(1) f] by (simp add: filter_key_sort_key)
  then have "?G (uniq_from ReviewID {} ?L) = [fresh]"
    by (simp add: uniq_from_filter)
  then have "rev (?G (uniq_from ReviewID {} ?L)) = [fresh]"
    by simp
  then show ?thesis
    by (simp only: mergeReadings_eq rev_filter)
qed


section \<open>The store\<close>

lemma put_elems_other: "a \<noteq> arr s \<Longrightarrow> put_elems h s xs ! a = h ! a"
  by (simp add: put_elems_def)

lemma length_put_elems [simp]: "length (put_elems h s xs) = length h"
  by (simp add: put_elems_def)

lemma put_elems_same:
  "arr s < length h \<Longrightarrow>
   put_elems h s xs ! arr s =
     take (off s) (h ! arr s) @ xs @ drop (off s + length xs) (h ! arr s)"
  by (simp add: put_elems_def)

lemma elems_put_elems:
  assumes "valid h s" and "length xs = len s"
    and "arr s' = arr s" and "off s' = off s" and "len s' \<le> len s"
  shows "elems (put_elems h s xs) s' = take (len s') xs"
    and "valid (put_elems h s xs) s'"
  using assms by (simp_all add: elems_def valid_def put_elems_same)

lemma length_elems: "valid h s \<Longrightarrow> length (elems h s) = len s"
  by (auto simp: elems_def valid_def)

lemma length_flip_pairs [simp]: "length (flip_pairs xs) = length xs"
  using mset_flip_pairs [of xs] by (metis size_mset)

lemma window_append:
  assumes "p + n + length ys \<le> length A"
  shows "take (n + length ys) (drop p (take (p + n) A @ ys @ drop (p + n + length ys) A)) =
         take n (drop p A) @ ys"
proof -
  have l: "length (take (p + n) A) = p + n"
    using assms by simp
  have "drop p (take (p + n) A @ ys @ drop (p + n + length ys) A) =
        drop p (take (p + n) A) @ ys @ drop (p + n + length ys) A"
    using l by simp
  also have "drop p (take (p + n) A) = take n (drop p A)"
    by (simp add: drop_take)
  finally show ?thesis
    using assms by simp
qed

lemma go_append_result:
  assumes "valid h s1" and "valid h s2" and "go_append h s1 s2 = (h', s)"
  shows "elems h' s = elems h s1 @ elems h s2" and "valid h' s"
    and "arr s = arr s1 \<or> arr s = length h"
    and "a \<noteq> arr s \<Longrightarrow> a < length h \<Longrightarrow> h' ! a = h ! a"
proof -
  let ?A = "h ! arr s1"
  let ?ys = "elems h s2"
  have ly: "length ?ys = len s2"
    using assms(2) by (rule length_elems)
  show "elems h' s = elems h s1 @ elems h s2"
  proof (cases "len s1 + len s2 \<le> cap h s1")
    case True
    then have fit: "off s1 + len s1 + len s2 \<le> length ?A"
      using assms(1) unfolding cap_def valid_def by linarith
    have h': "h' = put_elems h (s1\<lparr>off := off s1 + len s1\<rparr>) ?ys"
      and s: "s = s1\<lparr>len := len s1 + len s2\<rparr>"
      using assms(3) True by (simp_all add: go_append_def)
    have "h' ! arr s1 = take (off s1 + len s1) ?A @ ?ys @ drop (off s1 + len s1 + len s2) ?A"
      using assms(1) by (simp add: h' put_elems_def valid_def ly)
    moreover have "off s1 + len s1 + length ?ys \<le> length ?A"
      using fit ly by simp
    ultimately show ?thesis
      using window_append [of "off s1" "len s1" ?ys ?A] ly
      by (simp add: s elems_def [of h' ] elems_def [of h s1])
  next
    case False
    then have "h' = h @ [elems h s1 @ ?ys]"
      and "s = \<lparr>arr = length h, off = 0, len = len s1 + len s2\<rparr>"
      using assms(3) by (simp_all add: go_append_def)
    then show ?thesis
      using ly length_elems [OF assms(1)] by (simp add: elems_def)
  qed
  show "valid h' s"
  proof (cases "len s1 + len s2 \<le> cap h s1")
    case True
    then have fit: "off s1 + len s1 + len s2 \<le> length ?A"
      using assms(1) unfolding cap_def valid_def by linarith
    have h': "h' = put_elems h (s1\<lparr>off := off s1 + len s1\<rparr>) ?ys"
      and s: "s = s1\<lparr>len := len s1 + len s2\<rparr>"
      using assms(3) True by (simp_all add: go_append_def)
    show ?thesis
      using assms(1) fit ly by (simp add: h' s valid_def put_elems_def)
  next
    case False
    then have "h' = h @ [elems h s1 @ ?ys]"
      and "s = \<lparr>arr = length h, off = 0, len = len s1 + len s2\<rparr>"
      using assms(3) by (simp_all add: go_append_def)
    then show ?thesis
      using ly length_elems [OF assms(1)] by (simp add: valid_def)
  qed
  show "arr s = arr s1 \<or> arr s = length h"
    using assms(3) by (auto simp: go_append_def split: if_splits)
  show "h' ! a = h ! a" if "a \<noteq> arr s" "a < length h"
    using assms(3) that by (auto simp: go_append_def put_elems_def nth_append split: if_splits)
qed

lemma length_uniq_from_le: "length (uniq_from selector seen xs) \<le> length xs"
  by (induction xs arbitrary: seen) (auto intro: le_SucI)

lemma in_place:
  assumes "valid h s" and "length xs = len s"
  shows "elems (put_elems h s xs) s = xs" and "valid (put_elems h s xs) s"
    and "a \<noteq> arr s \<Longrightarrow> put_elems h s xs ! a = h ! a"
  using elems_put_elems [OF assms, of s] assms(2) by (simp_all add: put_elems_other)

lemma sliceUniq_st_result:
  assumes "valid h s" and "sliceUniq_st h s selector = (h', r)"
  shows "elems h' r = uniq_from selector {} (elems h s)" and "valid h' r"
    and "arr r = arr s" and "a \<noteq> arr s \<Longrightarrow> h' ! a = h ! a"
proof -
  let ?xs = "elems h s"
  let ?u = "uniq_from selector {} ?xs"
  have h': "h' = put_elems h s (?u @ drop (length ?u) ?xs)" and r: "r = s\<lparr>len := length ?u\<rparr>"
    using assms(2) by (simp_all add: sliceUniq_st_def sliceUniq_loop_eq)
  have le: "length ?u \<le> len s"
    using length_uniq_from_le [of selector "{}" ?xs] length_elems [OF assms(1)] by simp
  then have l: "length (?u @ drop (length ?u) ?xs) = len s"
    using length_elems [OF assms(1)] by simp
  show "elems h' r = ?u" "valid h' r"
    using elems_put_elems [OF assms(1) l, of r] le by (simp_all add: h' r)
  show "arr r = arr s" by (simp add: r)
  show "h' ! a = h ! a" if "a \<noteq> arr s"
    using that by (simp add: h' put_elems_other)
qed

lemma sliceKeepOnly_st_result:
  assumes "valid h s1" and "sliceKeepOnly_st h s1 s2 selector1 selector2 = (h', r)"
  defines "kept \<equiv> filter (\<lambda>x. selector1 x \<in> selector2 ` set (elems h s2)) (elems h s1)"
  shows "elems h' r = kept" and "valid h' r"
    and "elems h' s1 = kept @ drop (length kept) (elems h s1)"
    and "a \<noteq> arr s1 \<Longrightarrow> h' ! a = h ! a" and "length h' = length h"
proof -
  let ?xs = "elems h s1"
  have h': "h' = put_elems h s1 (kept @ drop (length kept) ?xs)"
    and r: "r = s1\<lparr>len := length kept\<rparr>"
    using assms(2)
    by (simp_all add: sliceKeepOnly_st_def sliceKeepOnly_loop_eq s2Values_loop_eq kept_def)
  have le: "length kept \<le> len s1"
    using length_filter_le [of _ ?xs] length_elems [OF assms(1)] by (simp add: kept_def)
  then have l: "length (kept @ drop (length kept) ?xs) = len s1"
    using length_elems [OF assms(1)] by simp
  show "elems h' r = kept" "valid h' r"
    using elems_put_elems [OF assms(1) l, of r] le by (simp_all add: h' r)
  show "elems h' s1 = kept @ drop (length kept) (elems h s1)"
    using in_place(1) [OF assms(1) l] by (simp add: h')
  show "h' ! a = h ! a" if "a \<noteq> arr s1"
    using that by (simp add: h' put_elems_other)
  show "length h' = length h"
    by (simp add: h')
qed

lemma elems_cong: "h' ! arr s = h ! arr s \<Longrightarrow> elems h' s = elems h s"
  by (simp add: elems_def)

lemma valid_cong:
  "h' ! arr s = h ! arr s \<Longrightarrow> length h' = length h \<Longrightarrow> valid h s \<Longrightarrow> valid h' s"
  by (simp add: valid_def)

text \<open>
  For two batches in different backing arrays, the slice that a reconciler returns holds
  what the reconciler on contents computes; the second statement of each lemma is what
  the call leaves in the backing array of the stored batch.
\<close>

lemma mergeReadings_st_correct:
  assumes api: "valid h apiReadings" and ex: "valid h existingReadings"
    and ne: "arr apiReadings \<noteq> arr existingReadings"
    and m: "mergeReadings_st h apiReadings existingReadings = (h', r)"
  shows "elems h' r = mergeReadings (elems h apiReadings) (elems h existingReadings)"
    and "elems h' existingReadings =
      filter (\<lambda>x. ReviewID x \<in> ReviewID ` set (elems h apiReadings)) (elems h existingReadings)
      @ drop (length (filter (\<lambda>x. ReviewID x \<in> ReviewID ` set (elems h apiReadings))
                (elems h existingReadings))) (elems h existingReadings)"
proof -
  let ?kept = "filter (\<lambda>x. ReviewID x \<in> ReviewID ` set (elems h apiReadings))
    (elems h existingReadings)"
  let ?lessf = "\<lambda>a b. ReviewID a <s ReviewID b"
  obtain h1 ex' where k: "sliceKeepOnly_st h existingReadings apiReadings ReviewID ReviewID = (h1, ex')"
    by fastforce
  obtain h2 s where a: "go_append h1 apiReadings ex' = (h2, s)"
    by fastforce
  let ?h3 = "sort_SliceStable_st h2 s ?lessf"
  obtain h4 sMerged where u: "sliceUniq_st ?h3 s ReviewID = (h4, sMerged)"
    by fastforce
  have h': "h' = sliceReverse_st h4 sMerged" and r: "r = sMerged"
    using m by (auto simp: mergeReadings_st_def k a u)
  note K = sliceKeepOnly_st_result [OF ex k]
  have api1: "valid h1 apiReadings" "elems h1 apiReadings = elems h apiReadings"
    using valid_cong [OF K(4) [OF ne] K(5) api] elems_cong [OF K(4) [OF ne]] by blast+
  note A = go_append_result [OF api1(1) K(2) a]
  have exl: "arr existingReadings < length h1"
    using ex K(5) by (simp add: valid_def)
  have sne: "arr existingReadings \<noteq> arr s"
    using A(3) ne exl by auto
  have e2: "elems h2 s = elems h apiReadings @ ?kept"
    using A(1) api1(2) K(1) by simp
  have l3: "length (sort_SliceStable (elems h2 s) ?lessf) = len s"
    using length_elems [OF A(2)] by (simp add: sort_SliceStable_sort_key)
  note S = in_place [OF A(2) l3]
  have h3: "?h3 = put_elems h2 s (sort_SliceStable (elems h2 s) ?lessf)"
    by (simp add: sort_SliceStable_st_def)
  have v3: "valid ?h3 s" and e3: "elems ?h3 s = sort_SliceStable (elems h2 s) ?lessf"
    using S(1,2) by (simp_all add: h3)
  note U = sliceUniq_st_result [OF v3 u]
  have l5: "length (sliceReverse (elems h4 sMerged)) = len sMerged"
    using length_elems [OF U(2)] by (simp add: sliceReverse_eq)
  note R = in_place [OF U(2) l5]
  show "elems h' r = mergeReadings (elems h apiReadings) (elems h existingReadings)"
    using R(1) U(1) e3 e2
    by (simp add: h' r sliceReverse_st_def mergeReadings_eq sliceReverse_eq
        sort_SliceStable_sort_key)
  have "h' ! arr existingReadings = h4 ! arr existingReadings"
    using R(3) [of "arr existingReadings"] sne U(3) by (simp add: h' sliceReverse_st_def)
  also have "\<dots> = ?h3 ! arr existingReadings"
    using U(4) [of "arr existingReadings"] sne by simp
  also have "\<dots> = h2 ! arr existingReadings"
    using S(3) [of "arr existingReadings"] sne by (simp add: h3)
  also have "\<dots> = h1 ! arr existingReadings"
    using A(4) [of "arr existingReadings"] sne exl by simp
  finally have "elems h' existingReadings = elems h1 existingReadings"
    by (rule elems_cong)
  then show "elems h' existingReadings = ?kept @ drop (length ?kept) (elems h existingReadings)"
    using K(3) by simp
qed

lemma mergeTweets_st_correct:
  assumes api: "valid h apiTweets" and ex: "valid h existingTweets"
    and ne: "arr apiTweets \<noteq> arr existingTweets"
    and m: "mergeTweets_st h apiTweets existingTweets = (h', r)"
  shows "elems h' r = mergeTweets (elems h apiTweets) (elems h existingTweets)"
    and "h' ! arr existingTweets = h ! arr existingTweets"
proof -
  let ?lessf = "\<lambda>a b. ID a <s ID b"
  obtain h2 s where a: "go_append h apiTweets existingTweets = (h2, s)"
    by fastforce
  let ?h3 = "sort_SliceStable_st h2 s ?lessf"
  let ?h3' = "flipDuplicateTweetsOnTrivialChanges_st ?h3 s"
  obtain h4 sMerged where u: "sliceUniq_st ?h3' s ID = (h4, sMerged)"
    by fastforce
  have h': "h' = sliceReverse_st h4 sMerged" and r: "r = sMerged"
    using m by (auto simp: mergeTweets_st_def a u)
  note A = go_append_result [OF api ex a]
  have exl: "arr existingTweets < length h"
    using ex by (simp add: valid_def)
  have sne: "arr existingTweets \<noteq> arr s"
    using A(3) ne exl by auto
  have l3: "length (sort_SliceStable (elems h2 s) ?lessf) = len s"
    using length_elems [OF A(2)] by (simp add: sort_SliceStable_sort_key)
  note S = in_place [OF A(2) l3]
  have h3: "?h3 = put_elems h2 s (sort_SliceStable (elems h2 s) ?lessf)"
    by (simp add: sort_SliceStable_st_def)
  have v3: "valid ?h3 s" and e3: "elems ?h3 s = sort_SliceStable (elems h2 s) ?lessf"
    using S(1,2) by (simp_all add: h3)
  have l3': "length (flipDuplicateTweetsOnTrivialChanges (elems ?h3 s)) = len s"
    using length_elems [OF v3] by (simp add: flipDuplicateTweetsOnTrivialChanges_eq)
  note F = in_place [OF v3 l3']
  have h3': "?h3' = put_elems ?h3 s (flipDuplicateTweetsOnTrivialChanges (elems ?h3 s))"
    by (simp add: flipDuplicateTweetsOnTrivialChanges_st_def)
  have v3': "valid ?h3' s"
    and e3': "elems ?h3' s = flipDuplicateTweetsOnTrivialChanges (elems ?h3 s)"
    using F(1,2) by (simp_all add: h3')
  note U = sliceUniq_st_result [OF v3' u]
  have l5: "length (sliceReverse (elems h4 sMerged)) = len sMerged"
    using length_elems [OF U(2)] by (simp add: sliceReverse_eq)
  note R = in_place [OF U(2) l5]
  show "elems h' r = mergeTweets (elems h apiTweets) (elems h existingTweets)"
    using R(1) U(1) e3' e3 A(1)
    by (simp add: h' r sliceReverse_st_def mergeTweets_eq sliceReverse_eq
        sort_SliceStable_sort_key flipDuplicateTweetsOnTrivialChanges_eq)
  have "h' ! arr existingTweets = h4 ! arr existingTweets"
    using R(3) [of "arr existingTweets"] sne U(3) by (simp add: h' sliceReverse_st_def)
  also have "\<dots> = ?h3' ! arr existingTweets"
    using U(4) [of "arr existingTweets"] sne by simp
  also have "\<dots> = ?h3 ! arr existingTweets"
    using F(3) [of "arr existingTweets"] sne by (simp add: h3')
  also have "\<dots> = h2 ! arr existingTweets"
    using S(3) [of "arr existingTweets"] sne by (simp add: h3)
  also have "\<dots> = h ! arr existingTweets"
    using A(4) [of "arr existingTweets"] sne exl by simp
  finally show "h' ! arr existingTweets = h ! arr existingTweets" .
qed

section \<open>The tests of the repository\<close>

text \<open>The cases of \<^verbatim>\<open>TestMergeTweets\<close>, \<^verbatim>\<open>TestMergeReadings\<close>, \<^verbatim>\<open>TestSliceReverse\<close> and
  \<^verbatim>\<open>TestSliceUniq\<close>, evaluated on the definitions above.\<close>

lemma test_MergeTweets_Standard:
  "mergeTweets
     [tweetLit 125 ''s1 125'' 0 0, tweetLit 124 ''s1 124'' 0 0, tweetLit 122 ''s1 122'' 0 0]
     [tweetLit 124 ''s2 124'' 0 0, tweetLit 123 ''s2 123'' 0 0, tweetLit 121 ''s2 121'' 0 0] =
   [tweetLit 125 ''s1 125'' 0 0, tweetLit 124 ''s1 124'' 0 0, tweetLit 123 ''s2 123'' 0 0,
    tweetLit 122 ''s1 122'' 0 0, tweetLit 121 ''s2 121'' 0 0]"
  by code_simp

lemma test_MergeTweets_NewPreferredOnNonTrivialChangesInc:
  "mergeTweets
     [tweetLit 125 ''s1 125'' 0 0, tweetLit 124 ''sX 124'' 10 10]
     [tweetLit 124 ''sX 124'' 2 2, tweetLit 123 ''s2 123'' 0 0] =
   [tweetLit 125 ''s1 125'' 0 0, tweetLit 124 ''sX 124'' 10 10, tweetLit 123 ''s2 123'' 0 0]"
  by code_simp

lemma test_MergeTweets_NewPreferredOnNonTrivialChangesDec:
  "mergeTweets
     [tweetLit 125 ''s1 125'' 0 0, tweetLit 124 ''sX 124'' 2 2]
     [tweetLit 124 ''sX 124'' 10 10, tweetLit 123 ''s2 123'' 0 0] =
   [tweetLit 125 ''s1 125'' 0 0, tweetLit 124 ''sX 124'' 2 2, tweetLit 123 ''s2 123'' 0 0]"
  by code_simp

lemma test_MergeTweets_OldPreferredOnTrivialChanges:
  "mergeTweets
     [tweetLit 125 ''s1 125'' 0 0, tweetLit 124 ''sX 124'' 4 4]
     [tweetLit 124 ''sX 124'' 2 2, tweetLit 123 ''s2 123'' 0 0] =
   [tweetLit 125 ''s1 125'' 0 0, tweetLit 124 ''sX 124'' 2 2, tweetLit 123 ''s2 123'' 0 0]"
  by code_simp

lemma test_MergeTweets_NewPreferredOnTrivialChangesIfEntitiesDifferent:
  "mergeTweets
     [tweetLit 125 ''s1 125'' 0 0,
      (tweetLit 124 ''sX 124'' 4 4)\<lparr>Entities := Some \<lparr>Medias =
         Some [Some (TweetEntitiesMedia 0 [] ''https://foo.com'')], URLs = None,
         UserMentions = None\<rparr>\<rparr>]
     [(tweetLit 124 ''sX 124'' 2 2)\<lparr>Entities := Some \<lparr>Medias =
         Some [Some (TweetEntitiesMedia 0 [] ''https://bar.com'')], URLs = None,
         UserMentions = None\<rparr>\<rparr>,
      tweetLit 123 ''s2 123'' 0 0] =
   [tweetLit 125 ''s1 125'' 0 0,
    (tweetLit 124 ''sX 124'' 4 4)\<lparr>Entities := Some \<lparr>Medias =
         Some [Some (TweetEntitiesMedia 0 [] ''https://foo.com'')], URLs = None,
         UserMentions = None\<rparr>\<rparr>,
    tweetLit 123 ''s2 123'' 0 0]"
  by code_simp

lemma test_MergeReadings_Standard:
  "mergeReadings
     [readingLit 125 ''s1 125'', readingLit 124 ''s1 124'', readingLit 123 ''s1 123'',
      readingLit 122 ''s1 122'']
     [readingLit 124 ''s2 124'', readingLit 123 ''s2 123''] =
   [readingLit 125 ''s1 125'', readingLit 124 ''s1 124'', readingLit 123 ''s1 123'',
    readingLit 122 ''s1 122'']"
  by code_simp

lemma test_MergeReadings_RemoveOld:
  "mergeReadings [readingLit 125 [], readingLit 123 []]
     [readingLit 125 [], readingLit 124 [], readingLit 123 []] =
   [readingLit 125 [], readingLit 123 []]"
  by code_simp

lemma test_SliceReverse: "sliceReverse [1, 2, 3 :: int] = [3, 2, 1]"
  by code_simp

lemma test_SliceUniq:
  "sliceUniq [1, 2, 2, 3, 4, 5, 6, 7, 7, 7, 8, 9 :: int] id = [1, 2, 3, 4, 5, 6, 7, 8, 9]"
  by code_simp

section \<open>Properties of the reconcilers\<close>

text \<open>
  Claim C5. For every pair of input batches, the output of \<open>mergeReadings\<close> and the output
  of \<open>mergeTweets\<close> hold no two elements with the same identifier and are ordered strictly
  descending by identifier (signed comparison of the 64-bit identifiers). The batches need
  not be free of duplicates for this.
\<close>

theorem merge_output_strictly_descending:
  "distinct (map ReviewID (mergeReadings apiReadings existingReadings)) \<and>
   sorted_wrt (\<lambda>a b. ReviewID b <s ReviewID a) (mergeReadings apiReadings existingReadings) \<and>
   distinct (map ID (mergeTweets apiTweets existingTweets)) \<and>
   sorted_wrt (\<lambda>a b. ID b <s ID a) (mergeTweets apiTweets existingTweets)"
  by (simp add: mergeTweets_descending mergeReadings_descending
      descending_distinct [OF mergeTweets_descending]
      descending_distinct [OF mergeReadings_descending])

text \<open>
  Claim C3. Every identifier that occurs in the stored batch occurs in the output of
  \<open>mergeTweets\<close> (the identifiers of the output are those of the two batches together),
  and when both batches are free of duplicate identifiers, a stored tweet whose identifier
  does not occur in the fresh batch is itself in the output: \<open>mergeTweets\<close> propagates no
  deletion.
\<close>

theorem mergeTweets_keeps_stored:
  assumes "distinct (map ID apiTweets)" and "distinct (map ID existingTweets)"
  shows "ID ` set existingTweets \<subseteq> ID ` set (mergeTweets apiTweets existingTweets) \<and>
         (\<forall>t \<in> set existingTweets.
            ID t \<notin> ID ` set apiTweets \<longrightarrow> t \<in> set (mergeTweets apiTweets existingTweets))"
proof (intro conjI ballI impI)
  show "ID ` set existingTweets \<subseteq> ID ` set (mergeTweets apiTweets existingTweets)"
    by (simp add: mergeTweets_ids)
next
  fix t
  assume t: "t \<in> set existingTweets" and n: "ID t \<notin> ID ` set apiTweets"
  let ?L = "sort_key (\<lambda>t. sint (ID t)) (apiTweets @ existingTweets)"
  let ?G = "\<lambda>v ys. filter (\<lambda>t. ID t = v) ys"
  have "?G (ID t) apiTweets = []"
    using n by (force simp: filter_empty_conv image_iff)
  then have g: "?G (ID t) ?L = [t]"
    using filter_key_distinct [OF assms(2) t] by (simp add: filter_key_sort_key)
  have le: "length (?G v ?L) \<le> 2" for v
    using filter_key_distinct_le [OF assms(1), of v] filter_key_distinct_le [OF assms(2), of v]
    by (simp add: filter_key_sort_key)
  have "?G (ID t) (flip_pairs ?L) = flip2 (?G (ID t) ?L)"
    by (rule filter_flip_pairs) (simp_all add: le)
  then have "?G (ID t) (uniq_from ID {} (flip_pairs ?L)) = [t]"
    by (simp add: uniq_from_filter g)
  then have "t \<in> set (?G (ID t) (uniq_from ID {} (flip_pairs ?L)))"
    by simp
  then show "t \<in> set (mergeTweets apiTweets existingTweets)"
    by (simp add: mergeTweets_eq)
qed

theorem mergeTweets_keeps_stored_witness:
  "distinct (map ID
     [tweetLit 125 ''s1 125'' 0 0, tweetLit 124 ''s1 124'' 0 0, tweetLit 122 ''s1 122'' 0 0]) \<and>
   distinct (map ID
     [tweetLit 124 ''s2 124'' 0 0, tweetLit 123 ''s2 123'' 0 0, tweetLit 121 ''s2 121'' 0 0]) \<and>
   tweetLit 123 ''s2 123'' 0 0 \<in>
     set [tweetLit 124 ''s2 124'' 0 0, tweetLit 123 ''s2 123'' 0 0, tweetLit 121 ''s2 121'' 0 0] \<and>
   ID (tweetLit 123 ''s2 123'' 0 0) \<notin> ID `
     set [tweetLit 125 ''s1 125'' 0 0, tweetLit 124 ''s1 124'' 0 0, tweetLit 122 ''s1 122'' 0 0] \<and>
   tweetLit 123 ''s2 123'' 0 0 \<in> set (mergeTweets
     [tweetLit 125 ''s1 125'' 0 0, tweetLit 124 ''s1 124'' 0 0, tweetLit 122 ''s1 122'' 0 0]
     [tweetLit 124 ''s2 124'' 0 0, tweetLit 123 ''s2 123'' 0 0, tweetLit 121 ''s2 121'' 0 0])"
proof -
  let ?A = "[tweetLit 125 ''s1 125'' 0 0, tweetLit 124 ''s1 124'' 0 0, tweetLit 122 ''s1 122'' 0 0]"
  let ?E = "[tweetLit 124 ''s2 124'' 0 0, tweetLit 123 ''s2 123'' 0 0, tweetLit 121 ''s2 121'' 0 0]"
  have a: "distinct (map ID ?A)" and b: "distinct (map ID ?E)"
    by (simp_all add: tweetLit_def)
  have c: "tweetLit 123 ''s2 123'' 0 0 \<in> set ?E"
    by simp
  have d: "ID (tweetLit 123 ''s2 123'' 0 0) \<notin> ID ` set ?A"
    by (simp add: tweetLit_def)
  from mergeTweets_keeps_stored [OF a b] c d
  have "tweetLit 123 ''s2 123'' 0 0 \<in> set (mergeTweets ?A ?E)"
    by blast
  with a b c d show ?thesis
    by blast
qed

text \<open>
  Claim C2. A stored reading whose review identifier does not occur among the review
  identifiers of the fresh batch is absent from the output of \<open>mergeReadings\<close>, and so is
  its identifier.
\<close>

theorem mergeReadings_deletion:
  assumes "r \<in> set existingReadings"
    and "ReviewID r \<notin> ReviewID ` set apiReadings"
  shows "r \<notin> set (mergeReadings apiReadings existingReadings) \<and>
         ReviewID r \<notin> ReviewID ` set (mergeReadings apiReadings existingReadings)"
  using assms mergeReadings_ids [of apiReadings existingReadings] by blast

theorem mergeReadings_deletion_witness:
  "readingLit 124 [] \<in> set [readingLit 125 [], readingLit 124 [], readingLit 123 []] \<and>
   ReviewID (readingLit 124 []) \<notin> ReviewID ` set [readingLit 125 [], readingLit 123 []] \<and>
   readingLit 124 [] \<notin> set (mergeReadings [readingLit 125 [], readingLit 123 []]
     [readingLit 125 [], readingLit 124 [], readingLit 123 []]) \<and>
   mergeReadings [readingLit 125 [], readingLit 123 []]
     [readingLit 125 [], readingLit 124 [], readingLit 123 []] =
     [readingLit 125 [], readingLit 123 []]"
proof -
  have a: "readingLit 124 [] \<in> set [readingLit 125 [], readingLit 124 [], readingLit 123 []]"
    by simp
  have b: "ReviewID (readingLit 124 []) \<notin> ReviewID ` set [readingLit 125 [], readingLit 123 []]"
    by (simp add: readingLit_def)
  have c: "mergeReadings [readingLit 125 [], readingLit 123 []]
     [readingLit 125 [], readingLit 124 [], readingLit 123 []] =
     [readingLit 125 [], readingLit 123 []]"
    by code_simp
  from mergeReadings_deletion [OF a b] a b c show ?thesis
    by blast
qed

text \<open>
  Claim C4. When both batches are free of duplicate review identifiers and an identifier
  occurs in both, in the entry \<open>fresh\<close> of the fresh batch and the entry \<open>stored\<close> of the
  stored one, the output of \<open>mergeReadings\<close> holds exactly one entry with that identifier,
  and it is \<open>fresh\<close>; a stored entry that differs from it is not in the output.
\<close>

theorem mergeReadings_fresh_wins:
  assumes "distinct (map ReviewID apiReadings)" and "distinct (map ReviewID existingReadings)"
    and "fresh \<in> set apiReadings" and "stored \<in> set existingReadings"
    and "ReviewID fresh = ReviewID stored"
  shows "filter (\<lambda>r. ReviewID r = ReviewID fresh) (mergeReadings apiReadings existingReadings)
           = [fresh] \<and>
         (stored \<noteq> fresh \<longrightarrow> stored \<notin> set (mergeReadings apiReadings existingReadings))"
proof -
  let ?out = "mergeReadings apiReadings existingReadings"
  have e: "filter (\<lambda>r. ReviewID r = ReviewID fresh) ?out = [fresh]"
    using assms(1,3) by (rule mergeReadings_entry)
  have "stored = fresh" if "stored \<in> set ?out"
  proof -
    from that assms(5) have "stored \<in> set (filter (\<lambda>r. ReviewID r = ReviewID fresh) ?out)"
      by simp
    then show ?thesis
      by (simp only: e) simp
  qed
  with e show ?thesis by blast
qed

theorem mergeReadings_fresh_wins_witness:
  "distinct (map ReviewID [readingLit 125 ''new'']) \<and>
   distinct (map ReviewID [readingLit 125 ''old'']) \<and>
   readingLit 125 ''new'' \<in> set [readingLit 125 ''new''] \<and>
   readingLit 125 ''old'' \<in> set [readingLit 125 ''old''] \<and>
   ReviewID (readingLit 125 ''new'') = ReviewID (readingLit 125 ''old'') \<and>
   filter (\<lambda>r. ReviewID r = ReviewID (readingLit 125 ''new''))
     (mergeReadings [readingLit 125 ''new''] [readingLit 125 ''old'']) = [readingLit 125 ''new''] \<and>
   readingLit 125 ''old'' \<notin> set (mergeReadings [readingLit 125 ''new''] [readingLit 125 ''old''])"
proof -
  have a: "distinct (map ReviewID [readingLit 125 ''new''])"
    and b: "distinct (map ReviewID [readingLit 125 ''old''])"
    and c: "readingLit 125 ''new'' \<in> set [readingLit 125 ''new'']"
    and d: "readingLit 125 ''old'' \<in> set [readingLit 125 ''old'']"
    by simp_all
  have e: "ReviewID (readingLit 125 ''new'') = ReviewID (readingLit 125 ''old'')"
    by (simp add: readingLit_def)
  have n: "readingLit 125 ''old'' \<noteq> readingLit 125 ''new''"
    by (simp add: readingLit_def)
  from mergeReadings_fresh_wins [OF a b c d e] n a b c d e show ?thesis
    by blast
qed

text \<open>
  The deltas of \<open>flipDuplicateTweetsOnTrivialChanges\<close> are Go \<^verbatim>\<open>int\<close> arithmetic:
  \<^verbatim>\<open>absInt(a - b)\<close> with a wrapping subtraction and a wrapping negation. The test
  \<^verbatim>\<open>absInt(a - b) < 3\<close> agrees with \<open>\<bar>a - b\<bar> < 3\<close> on the values of the counters except
  when the difference of the two values is \<open>2\<^sup>6\<^sup>3\<close>, \<open>2\<^sup>6\<^sup>4 - 2\<close> or \<open>2\<^sup>6\<^sup>4 - 1\<close> in absolute
  value: there the wrapped result is below 3 although the counters are far apart.
\<close>

lemma sint_range64:
  fixes a :: go_int
  shows "- (2 ^ 63) \<le> sint a" "sint a < 2 ^ 63"
  using sint_ge [of a] sint_lt [of a] by simp_all

lemma signed_take_bit_63_cases:
  fixes d :: int
  assumes "\<bar>d\<bar> < 2 ^ 64"
  shows "signed_take_bit 63 d =
    (if d < - (2 ^ 63) then d + 2 ^ 64 else if d < 2 ^ 63 then d else d - 2 ^ 64)"
proof -
  let ?w = "signed_take_bit 63 d"
  have r: "- (2 ^ 63) \<le> ?w" "?w < 2 ^ 63"
    using signed_take_bit_int_greater_eq_minus_exp [of 63 d]
      signed_take_bit_int_less_exp [of 63 d] by simp_all
  have "take_bit 64 ?w = take_bit 64 d"
    by (simp add: take_bit_signed_take_bit)
  then have "(2 ^ 64 :: int) dvd ?w - d"
    by (simp add: take_bit_eq_mod mod_eq_dvd_iff)
  then obtain k where k: "?w - d = 2 ^ 64 * k" ..
  have "k = -1 \<or> k = 0 \<or> k = 1"
    using k r assms by simp linarith
  then show ?thesis
    using k r assms by auto
qed

lemma sint_absInt:
  fixes x :: go_int
  shows "sint (absInt x) = (if sint x = - (2 ^ 63) then - (2 ^ 63) else \<bar>sint x\<bar>)"
proof -
  have n: "sint (- x) = signed_take_bit 63 (- sint x)"
    by (simp add: sint_word_ariths)
  have "\<bar>- sint x\<bar> < 2 ^ 64"
    using sint_range64 [of x] by simp
  note c = signed_take_bit_63_cases [OF this]
  show ?thesis
    using sint_range64 [of x] by (auto simp: absInt_def word_sless_alt n c)
qed

lemma absInt_diff_below_iff:
  fixes a b :: go_int
  shows "absInt (a - b) <s 3 \<longleftrightarrow>
    \<bar>sint a - sint b\<bar> < 3 \<or> \<bar>sint a - sint b\<bar> = 2 ^ 63 \<or> 2 ^ 64 - 2 \<le> \<bar>sint a - sint b\<bar>"
proof -
  let ?d = "sint a - sint b"
  have d: "\<bar>?d\<bar> < 2 ^ 64"
    using sint_range64 [of a] sint_range64 [of b] by simp
  have w: "sint (a - b) = signed_take_bit 63 ?d"
    by (simp add: sint_word_ariths)
  show ?thesis
    using d by (simp add: word_sless_alt sint_absInt w signed_take_bit_63_cases [OF d]) linarith
qed

text \<open>
  Away from these differences \<open>mergeTweets\<close> does what claim C1 says: when both batches are
  free of duplicate identifiers and an identifier occurs in both, in the entry \<open>fresh\<close> of
  the fresh batch and the entry \<open>stored\<close> of the stored one, the output holds exactly one
  entry with that identifier, \<open>stored\<close> when the texts are equal, the entities are deeply
  equal and both absolute differences are below 3, and \<open>fresh\<close> in every other case.
  Counters that are not negative never differ by \<open>2\<^sup>6\<^sup>3\<close> or more.
\<close>

lemma mergeTweets_trivial_change_unless_overflow:
  assumes "distinct (map ID apiTweets)" and "distinct (map ID existingTweets)"
    and "fresh \<in> set apiTweets" and "stored \<in> set existingTweets"
    and "ID fresh = ID stored"
    and "\<bar>sint (FavoriteCount fresh) - sint (FavoriteCount stored)\<bar> \<noteq> 2 ^ 63"
    and "\<bar>sint (FavoriteCount fresh) - sint (FavoriteCount stored)\<bar> < 2 ^ 64 - 2"
    and "\<bar>sint (RetweetCount fresh) - sint (RetweetCount stored)\<bar> \<noteq> 2 ^ 63"
    and "\<bar>sint (RetweetCount fresh) - sint (RetweetCount stored)\<bar> < 2 ^ 64 - 2"
  shows "filter (\<lambda>t. ID t = ID fresh) (mergeTweets apiTweets existingTweets) =
           [if Text fresh = Text stored \<and> Entities fresh = Entities stored \<and>
               \<bar>sint (FavoriteCount fresh) - sint (FavoriteCount stored)\<bar> < 3 \<and>
               \<bar>sint (RetweetCount fresh) - sint (RetweetCount stored)\<bar> < 3
            then stored else fresh] \<and>
         (stored \<in> set (mergeTweets apiTweets existingTweets) \<longleftrightarrow>
            Text fresh = Text stored \<and> Entities fresh = Entities stored \<and>
            \<bar>sint (FavoriteCount fresh) - sint (FavoriteCount stored)\<bar> < 3 \<and>
            \<bar>sint (RetweetCount fresh) - sint (RetweetCount stored)\<bar> < 3)"
proof -
  define out where "out = mergeTweets apiTweets existingTweets"
  define c where "c \<longleftrightarrow> Text fresh = Text stored \<and> Entities fresh = Entities stored \<and>
    \<bar>sint (FavoriteCount fresh) - sint (FavoriteCount stored)\<bar> < 3 \<and>
    \<bar>sint (RetweetCount fresh) - sint (RetweetCount stored)\<bar> < 3"
  have f: "absInt (FavoriteCount fresh - FavoriteCount stored) <s 3 \<longleftrightarrow>
      \<bar>sint (FavoriteCount fresh) - sint (FavoriteCount stored)\<bar> < 3"
    using assms(6,7) by (simp add: absInt_diff_below_iff)
  have r: "absInt (RetweetCount fresh - RetweetCount stored) <s 3 \<longleftrightarrow>
      \<bar>sint (RetweetCount fresh) - sint (RetweetCount stored)\<bar> < 3"
    using assms(8,9) by (simp add: absInt_diff_below_iff)
  have "trivialChange fresh stored \<longleftrightarrow> c"
    using assms(5) by (simp only: trivialChange_def c_def f r) simp
  then have e: "filter (\<lambda>t. ID t = ID fresh) out = [if c then stored else fresh]"
    using mergeTweets_entry [OF assms(1-5)] by (simp only: out_def)
  have same: "c" if "stored = fresh"
    using that by (simp add: c_def)
  have "stored \<in> set out \<longleftrightarrow> stored \<in> set (filter (\<lambda>t. ID t = ID fresh) out)"
    using assms(5) by simp
  also have "\<dots> \<longleftrightarrow> stored \<in> set [if c then stored else fresh]"
    by (simp only: e)
  also have "\<dots> \<longleftrightarrow> c"
  proof (cases c)
    case True
    then show ?thesis by simp
  next
    case False
    with same have "stored \<noteq> fresh" by blast
    with False show ?thesis by simp
  qed
  finally have "stored \<in> set out \<longleftrightarrow> c" .
  with e show ?thesis
    unfolding out_def c_def by blast
qed

lemma mergeTweets_trivial_change_nonnegative:
  assumes "distinct (map ID apiTweets)" and "distinct (map ID existingTweets)"
    and "fresh \<in> set apiTweets" and "stored \<in> set existingTweets"
    and "ID fresh = ID stored"
    and "0 \<le>s FavoriteCount fresh" and "0 \<le>s FavoriteCount stored"
    and "0 \<le>s RetweetCount fresh" and "0 \<le>s RetweetCount stored"
  shows "filter (\<lambda>t. ID t = ID fresh) (mergeTweets apiTweets existingTweets) =
           [if Text fresh = Text stored \<and> Entities fresh = Entities stored \<and>
               \<bar>sint (FavoriteCount fresh) - sint (FavoriteCount stored)\<bar> < 3 \<and>
               \<bar>sint (RetweetCount fresh) - sint (RetweetCount stored)\<bar> < 3
            then stored else fresh] \<and>
         (stored \<in> set (mergeTweets apiTweets existingTweets) \<longleftrightarrow>
            Text fresh = Text stored \<and> Entities fresh = Entities stored \<and>
            \<bar>sint (FavoriteCount fresh) - sint (FavoriteCount stored)\<bar> < 3 \<and>
            \<bar>sint (RetweetCount fresh) - sint (RetweetCount stored)\<bar> < 3)"
proof -
  have f: "\<bar>sint (FavoriteCount fresh) - sint (FavoriteCount stored)\<bar> < 2 ^ 63"
    using assms(6,7) sint_range64 [of "FavoriteCount fresh"]
      sint_range64 [of "FavoriteCount stored"]
    by (simp add: word_sle_eq)
  have r: "\<bar>sint (RetweetCount fresh) - sint (RetweetCount stored)\<bar> < 2 ^ 63"
    using assms(8,9) sint_range64 [of "RetweetCount fresh"]
      sint_range64 [of "RetweetCount stored"]
    by (simp add: word_sle_eq)
  show ?thesis
    by (rule mergeTweets_trivial_change_unless_overflow [OF assms(1-5)])
      (use f r in simp_all)
qed

lemma mergeTweets_trivial_change_example:
  "filter (\<lambda>t. ID t = ID (tweetLit 124 ''sX 124'' 4 4))
     (mergeTweets [tweetLit 125 ''s1 125'' 0 0, tweetLit 124 ''sX 124'' 4 4]
        [tweetLit 124 ''sX 124'' 2 2, tweetLit 123 ''s2 123'' 0 0])
     = [tweetLit 124 ''sX 124'' 2 2] \<and>
   tweetLit 124 ''sX 124'' 2 2 \<in>
     set (mergeTweets [tweetLit 125 ''s1 125'' 0 0, tweetLit 124 ''sX 124'' 4 4]
        [tweetLit 124 ''sX 124'' 2 2, tweetLit 123 ''s2 123'' 0 0])"
proof -
  let ?f = "tweetLit 124 ''sX 124'' 4 4" and ?s = "tweetLit 124 ''sX 124'' 2 2"
  let ?A = "[tweetLit 125 ''s1 125'' 0 0, ?f]" and ?E = "[?s, tweetLit 123 ''s2 123'' 0 0]"
  have h1: "distinct (map ID ?A)" and h2: "distinct (map ID ?E)"
    by (simp_all add: tweetLit_def)
  have h3: "?f \<in> set ?A" and h4: "?s \<in> set ?E"
    by simp_all
  have h5: "ID ?f = ID ?s"
    by (simp add: tweetLit_def)
  have h6: "0 \<le>s FavoriteCount ?f" and h7: "0 \<le>s FavoriteCount ?s"
    and h8: "0 \<le>s RetweetCount ?f" and h9: "0 \<le>s RetweetCount ?s"
    by (simp_all add: tweetLit_def word_sle_eq)
  have c: "Text ?f = Text ?s \<and> Entities ?f = Entities ?s \<and>
      \<bar>sint (FavoriteCount ?f) - sint (FavoriteCount ?s)\<bar> < 3 \<and>
      \<bar>sint (RetweetCount ?f) - sint (RetweetCount ?s)\<bar> < 3"
    by (simp add: tweetLit_def)
  from mergeTweets_trivial_change_nonnegative [OF h1 h2 h3 h4 h5 h6 h7 h8 h9] c
  show ?thesis
    by presburger
qed

text \<open>
  Claim C1. For every pair of tweet batches, each free of duplicate identifiers, and every
  identifier in both, \<open>mergeTweets\<close> retains the stored entry exactly when the texts are
  equal, the entities are deeply equal and both \<open>\<bar>fresh.favoriteCount -
  stored.favoriteCount\<bar>\<close> and \<open>\<bar>fresh.retweetCount - stored.retweetCount\<bar>\<close> are below 3,
  and the fresh entry in every other case. The code departs from this where
  \<^verbatim>\<open>absInt(a - b)\<close> overflows. With a fresh \<^verbatim>\<open>FavoriteCount\<close> of \<open>0\<close> and a stored one of
  \<open>-2\<^sup>6\<^sup>3\<close> (same identifier, text, entities and retweet count) the subtraction wraps to
  \<open>-2\<^sup>6\<^sup>3\<close>, \<^verbatim>\<open>absInt\<close> returns it unchanged, it is below 3 and the pair is swapped: the
  favorite counts differ by \<open>2\<^sup>6\<^sup>3\<close>, which is not below 3, and the entry that
  \<open>mergeTweets\<close> returns is the stored one, not the fresh one. The comment of
  \<^verbatim>\<open>flipDuplicateTweetsOnTrivialChanges\<close> keeps the stored data only when the counts
  "changed by a small amount", and the tests \<^verbatim>\<open>NewPreferredOnNonTrivialChangesInc\<close> and
  \<^verbatim>\<open>NewPreferredOnNonTrivialChangesDec\<close> have the fresh entry win on a larger change.
\<close>

theorem mergeTweets_trivial_change_overflow:
  "\<not> \<bar>sint (FavoriteCount (tweetLit 124 ''sX 124'' 0 0))
       - sint (FavoriteCount (tweetLit 124 ''sX 124'' (- 9223372036854775808) 0))\<bar> < 3 \<and>
   ID (tweetLit 124 ''sX 124'' 0 0) = ID (tweetLit 124 ''sX 124'' (- 9223372036854775808) 0) \<and>
   tweetLit 124 ''sX 124'' (- 9223372036854775808) 0 \<noteq> tweetLit 124 ''sX 124'' 0 0 \<and>
   mergeTweets [tweetLit 124 ''sX 124'' 0 0] [tweetLit 124 ''sX 124'' (- 9223372036854775808) 0]
     = [tweetLit 124 ''sX 124'' (- 9223372036854775808) 0]"
  by (simp add: mergeTweets_eq tweetLit_def trivialChange_def absInt_def word_sless_alt)

text \<open>
  Claim C6. Merging an output of \<open>mergeTweets\<close> again, with an empty stored batch, returns
  it as it is, in content and in order.
\<close>

theorem mergeTweets_idempotent:
  "mergeTweets (mergeTweets apiTweets existingTweets) [] = mergeTweets apiTweets existingTweets"
  by (rule mergeTweets_descending_id) (rule mergeTweets_descending)

section \<open>The stored collection after a merge\<close>

text \<open>
  \<^verbatim>\<open>mergeReadings\<close> hands the caller's stored slice to \<^verbatim>\<open>sliceKeepOnly\<close>, which compacts it
  in place. With the fresh batch \<open>[125, 123]\<close> and the stored batch \<open>[125, 124, 123]\<close> of
  the test \<^verbatim>\<open>RemoveOld\<close>, in two backing arrays, the caller's stored slice reads
  \<open>[125, 123, 123]\<close> after the call: claim C7 fails there.
\<close>

theorem mergeReadings_st_stored_counterexample:
  "elems (fst (mergeReadings_st
      [[readingLit 125 ''s1 125'', readingLit 123 ''s1 123''],
       [readingLit 125 ''s2 125'', readingLit 124 ''s2 124'', readingLit 123 ''s2 123'']]
      \<lparr>arr = 0, off = 0, len = 2\<rparr> \<lparr>arr = 1, off = 0, len = 3\<rparr>))
     \<lparr>arr = 1, off = 0, len = 3\<rparr>
   = [readingLit 125 ''s2 125'', readingLit 123 ''s2 123'', readingLit 123 ''s2 123''] \<and>
   elems
      [[readingLit 125 ''s1 125'', readingLit 123 ''s1 123''],
       [readingLit 125 ''s2 125'', readingLit 124 ''s2 124'', readingLit 123 ''s2 123'']]
     \<lparr>arr = 1, off = 0, len = 3\<rparr>
   = [readingLit 125 ''s2 125'', readingLit 124 ''s2 124'', readingLit 123 ''s2 123'']"
  by code_simp

text \<open>
  Claim C7, amended. Let the fresh and the stored batch be slices of two different backing
  arrays. \<open>mergeTweets\<close> leaves the backing array of the stored batch as it is: appending,
  sorting, the swaps of the anti-churn pass, the deduplication and the reversal all happen
  in the array of the slice that \<^verbatim>\<open>append\<close> returns. \<open>mergeReadings\<close> does the same from
  \<^verbatim>\<open>append\<close> on, but first compacts the stored batch in place (\<^verbatim>\<open>sliceKeepOnly\<close>): after
  the call the caller's stored slice holds first its entries whose review identifier occurs
  in the fresh batch, in their order, and behind these \<open>k\<close> entries its old content from
  slot \<open>k\<close> on.
\<close>

theorem reconcilers_stored_collection:
  assumes "valid hT apiTweets" and "valid hT existingTweets"
    and "arr apiTweets \<noteq> arr existingTweets"
    and "valid hR apiReadings" and "valid hR existingReadings"
    and "arr apiReadings \<noteq> arr existingReadings"
  shows "fst (mergeTweets_st hT apiTweets existingTweets) ! arr existingTweets
           = hT ! arr existingTweets \<and>
         elems (fst (mergeTweets_st hT apiTweets existingTweets)) existingTweets
           = elems hT existingTweets \<and>
         elems (fst (mergeReadings_st hR apiReadings existingReadings)) existingReadings
           = filter (\<lambda>x. ReviewID x \<in> ReviewID ` set (elems hR apiReadings))
               (elems hR existingReadings)
             @ drop (length (filter (\<lambda>x. ReviewID x \<in> ReviewID ` set (elems hR apiReadings))
                        (elems hR existingReadings)))
                 (elems hR existingReadings)"
proof -
  obtain hT' rT where t: "mergeTweets_st hT apiTweets existingTweets = (hT', rT)"
    by fastforce
  obtain hR' rR where r: "mergeReadings_st hR apiReadings existingReadings = (hR', rR)"
    by fastforce
  have a: "hT' ! arr existingTweets = hT ! arr existingTweets"
    using assms(1-3) t by (rule mergeTweets_st_correct(2))
  then have b: "elems hT' existingTweets = elems hT existingTweets"
    by (rule elems_cong)
  show ?thesis
    using a b mergeReadings_st_correct(2) [OF assms(4-6) r] by (simp add: t r)
qed

theorem reconcilers_stored_collection_witness:
  "valid [[tweetLit 125 ''s1 125'' 0 0, tweetLit 124 ''sX 124'' 4 4],
          [tweetLit 124 ''sX 124'' 2 2, tweetLit 123 ''s2 123'' 0 0]]
     \<lparr>arr = 0, off = 0, len = 2\<rparr> \<and>
   valid [[tweetLit 125 ''s1 125'' 0 0, tweetLit 124 ''sX 124'' 4 4],
          [tweetLit 124 ''sX 124'' 2 2, tweetLit 123 ''s2 123'' 0 0]]
     \<lparr>arr = 1, off = 0, len = 2\<rparr> \<and>
   arr \<lparr>arr = 0, off = 0, len = 2\<rparr> \<noteq> arr \<lparr>arr = 1, off = 0, len = 2\<rparr> \<and>
   valid [[readingLit 125 [], readingLit 123 []],
          [readingLit 125 [], readingLit 124 [], readingLit 123 []]]
     \<lparr>arr = 0, off = 0, len = 2\<rparr> \<and>
   valid [[readingLit 125 [], readingLit 123 []],
          [readingLit 125 [], readingLit 124 [], readingLit 123 []]]
     \<lparr>arr = 1, off = 0, len = 3\<rparr> \<and>
   arr \<lparr>arr = 0, off = 0, len = 2\<rparr> \<noteq> arr \<lparr>arr = 1, off = 0, len = 3\<rparr> \<and>
   elems (fst (mergeTweets_st
       [[tweetLit 125 ''s1 125'' 0 0, tweetLit 124 ''sX 124'' 4 4],
        [tweetLit 124 ''sX 124'' 2 2, tweetLit 123 ''s2 123'' 0 0]]
       \<lparr>arr = 0, off = 0, len = 2\<rparr> \<lparr>arr = 1, off = 0, len = 2\<rparr>))
     \<lparr>arr = 1, off = 0, len = 2\<rparr>
     = [tweetLit 124 ''sX 124'' 2 2, tweetLit 123 ''s2 123'' 0 0] \<and>
   elems (fst (mergeReadings_st
       [[readingLit 125 [], readingLit 123 []],
        [readingLit 125 [], readingLit 124 [], readingLit 123 []]]
       \<lparr>arr = 0, off = 0, len = 2\<rparr> \<lparr>arr = 1, off = 0, len = 3\<rparr>))
     \<lparr>arr = 1, off = 0, len = 3\<rparr>
     = [readingLit 125 [], readingLit 123 [], readingLit 123 []]"
proof -
  let ?hT = "[[tweetLit 125 ''s1 125'' 0 0, tweetLit 124 ''sX 124'' 4 4],
    [tweetLit 124 ''sX 124'' 2 2, tweetLit 123 ''s2 123'' 0 0]]"
  let ?hR = "[[readingLit 125 [], readingLit 123 []],
    [readingLit 125 [], readingLit 124 [], readingLit 123 []]]"
  let ?a = "\<lparr>arr = 0, off = 0, len = 2\<rparr>"
  let ?eT = "\<lparr>arr = 1, off = 0, len = 2\<rparr>" and ?eR = "\<lparr>arr = 1, off = 0, len = 3\<rparr>"
  have v1: "valid ?hT ?a" and v2: "valid ?hT ?eT" and v3: "valid ?hR ?a" and v4: "valid ?hR ?eR"
    by (simp_all add: valid_def)
  have n1: "arr ?a \<noteq> arr ?eT" and n2: "arr ?a \<noteq> arr ?eR"
    by simp_all
  have e1: "elems ?hT ?eT = [tweetLit 124 ''sX 124'' 2 2, tweetLit 123 ''s2 123'' 0 0]"
    by (simp add: elems_def)
  have e2: "filter (\<lambda>x. ReviewID x \<in> ReviewID ` set (elems ?hR ?a)) (elems ?hR ?eR)
      @ drop (length (filter (\<lambda>x. ReviewID x \<in> ReviewID ` set (elems ?hR ?a)) (elems ?hR ?eR)))
          (elems ?hR ?eR)
      = [readingLit 125 [], readingLit 123 [], readingLit 123 []]"
    by (simp add: elems_def readingLit_def)
  from reconcilers_stored_collection [OF v1 v2 n1 v3 v4 n2] e1 e2
  have "elems (fst (mergeTweets_st ?hT ?a ?eT)) ?eT
      = [tweetLit 124 ''sX 124'' 2 2, tweetLit 123 ''s2 123'' 0 0] \<and>
    elems (fst (mergeReadings_st ?hR ?a ?eR)) ?eR
      = [readingLit 125 [], readingLit 123 [], readingLit 123 []]"
    by presburger
  with v1 v2 n1 v3 v4 n2 show ?thesis
    by blast
qed

end
